theory Spec2Isabelle
  imports Main
begin

section \<open>JavaScript values and the store\<close>

text \<open>
  The values the library handles. A symbol is identified by the number of the
  \<^verbatim>\<open>Symbol(...)\<close> call that made it. A function supplied by a caller is
  \<open>VFunction i\<close>, with \<open>i\<close> its identity; what its body does is found in the
  table \<open>code\<close> of the store (below). \<open>VRelay i c\<close> is the arrow function
  \<^verbatim>\<open>e => this.#call(e)\<close> that \<^verbatim>\<open>CompoundEvt.bind\<close> creates: \<open>i\<close> is its identity and
  \<open>c\<close> the compound it has captured as \<^verbatim>\<open>this\<close>. \<open>VEvt n\<close> is a reference to the
  event object at address \<open>n\<close> of the store. Strict equality (\<^verbatim>\<open>===\<close>) on these
  values is equality of the terms.
\<close>

datatype val =
    VUndefined
  | VNull
  | VSymbol nat
  | VNumber int
  | VString string
  | VFunction nat
  | VRelay nat nat
  | VEvt nat

fun truthy :: "val \<Rightarrow> bool" where
  "truthy VUndefined = False"
| "truthy VNull = False"
| "truthy (VNumber n) = (n \<noteq> 0)"
| "truthy (VString s) = (s \<noteq> [])"
| "truthy _ = True"

text \<open>\<^verbatim>\<open>typeof v == "function"\<close>\<close>

fun typeof_function :: "val \<Rightarrow> bool" where
  "typeof_function (VFunction i) = True"
| "typeof_function (VRelay i c) = True"
| "typeof_function _ = False"

text \<open>
  An event object: the private fields of class \<^verbatim>\<open>Evt\<close>, and for an instance of
  \<^verbatim>\<open>CompoundEvt\<close> (\<open>compound\<close>) the private fields that class adds. The subclass
  declares a \<^verbatim>\<open>#key\<close> of its own, which shadows nothing: both fields exist.
  An element of \<^verbatim>\<open>#evtsData\<close> is the object \<^verbatim>\<open>{key, handler}\<close>, or a hole.
\<close>

record evtobj =
  name :: string
  priorityHandlers :: "val list"
  handlers :: "val list"
  Evt_key :: val
  pending :: bool
  compound :: bool
  CompoundEvt_key :: val
  evts :: "val list"
  evtsData :: "(val \<times> val) option list"

text \<open>The firing record built by \<^verbatim>\<open>#getInstance\<close> (its \<^verbatim>\<open>cancel\<close> closure is the
  flag of the call that built it, see \<open>call\<close> below), and the \<^verbatim>\<open>opts\<close> object.\<close>

record firing =
  caller :: val
  evt :: val
  data :: val
  time :: val

record opts =
  overrideEvt :: val
  overrideTime :: val

text \<open>
  Two kinds of entries of the log that the model keeps of a run: \<open>Fired e i\<close> when
  a call of event \<open>e\<close> has passed its entry guard and built the record \<open>i\<close>, and
  \<open>Invoked h i t\<close> when the handler \<open>h\<close> is invoked with the arguments \<open>(i, t)\<close>.
\<close>

datatype entry =
    Fired nat firing
  | Invoked val firing val


text \<open>
  The methods of the two classes, as calls with their arguments. An operation is
  what a caller of the library does, and also what the body of a caller's
  function can do with the events it knows.
\<close>

datatype op =
    NewEvt string
  | NewCompoundEvt string
  | Lock nat
  | Unlock nat val
  | AddPriorityHandler nat "val list"
  | AddPriorityHandlers nat "val list"
  | RemovePriorityHandler nat "val list"
  | RemovePriorityHandlers nat "val list"
  | ClearPriorityHandlers nat val
  | AddHandler nat val
  | AddHandlers nat "val list"
  | RemoveHandler nat val
  | RemoveHandlers nat "val list"
  | ClearHandlers nat
  | On nat "val list"
  | Call nat val val val opts
  | Bind nat "val list"
  | Unbind nat "val list"

text \<open>The object an operation is a method call on.\<close>

fun target :: "op \<Rightarrow> nat option" where
  "target (NewEvt n) = None"
| "target (NewCompoundEvt n) = None"
| "target (Lock e) = Some e"
| "target (Unlock e k) = Some e"
| "target (AddPriorityHandler e a) = Some e"
| "target (AddPriorityHandlers e a) = Some e"
| "target (RemovePriorityHandler e a) = Some e"
| "target (RemovePriorityHandlers e a) = Some e"
| "target (ClearPriorityHandlers e k) = Some e"
| "target (AddHandler e h) = Some e"
| "target (AddHandlers e hs) = Some e"
| "target (RemoveHandler e h) = Some e"
| "target (RemoveHandlers e hs) = Some e"
| "target (ClearHandlers e) = Some e"
| "target (On e hs) = Some e"
| "target (Call e k c d opts) = Some e"
| "target (Bind e a) = Some e"
| "target (Unbind e a) = Some e"

text \<open>What an operation returns: a value, or the firing record of a call.\<close>

datatype ret =
    Ret val
  | RetInstance firing


text \<open>
  The body of a caller's function, as the sequence of what it does that matters
  to the library: it calls \<^verbatim>\<open>cancel()\<close> on the firing record it was invoked
  with, it throws, or it calls a method of an event.
\<close>

datatype action =
    Cancel
  | Throw
  | Do op

text \<open>
  The store: the event objects by address, the number of symbols and of relay
  closures made so far, the clock (\<open>now k\<close> is what the \<open>k\<close>-th call of
  \<^verbatim>\<open>Date.now()\<close> returns, \<open>reads\<close> counts the calls), the log, and the bodies of
  the caller's functions. The fields \<open>priorityHandlers\<close> and \<open>handlers\<close> of an object
  are the contents of the arrays that \<^verbatim>\<open>#priorityHandlers\<close> and \<^verbatim>\<open>#handlers\<close> refer
  to now. \<^verbatim>\<open>clearPriorityHandlers\<close> and \<^verbatim>\<open>clearHandlers\<close> assign a new array to
  the field; the array it referred to before stays as it is then, and a loop that
  is iterating over it goes on with it. \<open>detached\<close> records these arrays in the
  order of the assignments: the object, whether it was the priority list, and
  the contents.
\<close>

record world =
  objs :: "evtobj list"
  next_sym :: nat
  next_fn :: nat
  now :: "nat \<Rightarrow> int"
  reads :: nat
  trace :: "entry list"
  code :: "nat \<Rightarrow> action list"
  detached :: "(nat \<times> bool \<times> val list) list"

definition upd :: "nat \<Rightarrow> (evtobj \<Rightarrow> evtobj) \<Rightarrow> world \<Rightarrow> world" where
  "upd e f w = w\<lparr>objs := (objs w)[e := f (objs w ! e)]\<rparr>"

definition log :: "entry \<Rightarrow> world \<Rightarrow> world" where
  "log x w = w\<lparr>trace := trace w @ [x]\<rparr>"

text \<open>\<^verbatim>\<open>v instanceof Evt\<close>: a reference to an object of the store.\<close>

fun instanceof_Evt :: "world \<Rightarrow> val \<Rightarrow> bool" where
  "instanceof_Evt w (VEvt n) = (n < length (objs w))"
| "instanceof_Evt w _ = False"

fun ref :: "val \<Rightarrow> nat" where
  "ref (VEvt n) = n"
| "ref _ = 0"

text \<open>\<^verbatim>\<open>arguments[i]\<close>, \<^verbatim>\<open>undefined\<close> beyond the arguments given.\<close>

definition arg :: "val list \<Rightarrow> nat \<Rightarrow> val" where
  "arg args i = (if i < length args then args ! i else VUndefined)"

subsection \<open>Array methods\<close>

text \<open>\<^verbatim>\<open>Array.prototype.indexOf\<close>: the first index, or -1.\<close>

fun indexOf :: "'a list \<Rightarrow> 'a \<Rightarrow> int" where
  "indexOf [] x = - 1"
| "indexOf (y # ys) x =
     (if y = x then 0 else (let i = indexOf ys x in if i < 0 then - 1 else i + 1))"

text \<open>\<^verbatim>\<open>xs.splice(start, 1)\<close>: a negative start counts from the end, and the
  start and the count are clamped to the array.\<close>

definition splice1 :: "'a list \<Rightarrow> int \<Rightarrow> 'a list" where
  "splice1 xs start =
     (let len = int (length xs);
          s = (if start < 0 then max (len + start) 0 else min start len);
          n = min 1 (len - s)
      in take (nat s) xs @ drop (nat (s + n)) xs)"

text \<open>\<^verbatim>\<open>xs[i] = v\<close>: beyond the end the array grows, with holes \<open>h\<close> between.\<close>

definition assign :: "'a \<Rightarrow> 'a list \<Rightarrow> nat \<Rightarrow> 'a \<Rightarrow> 'a list" where
  "assign h xs i v =
     (if i < length xs then xs[i := v] else xs @ replicate (i - length xs) h @ [v])"

section \<open>Class Evt\<close>

subsection \<open>Locking\<close>

definition Evt_validateKey :: "evtobj \<Rightarrow> val \<Rightarrow> bool" where
  "Evt_validateKey ob k = (\<not> truthy (Evt_key ob) \<or> Evt_key ob = k)"

definition CompoundEvt_validateKey :: "evtobj \<Rightarrow> val \<Rightarrow> bool" where
  "CompoundEvt_validateKey ob k = (\<not> truthy (CompoundEvt_key ob) \<or> CompoundEvt_key ob = k)"

text \<open>\<^verbatim>\<open>this.validateKey(key)\<close>: the method of the object's class.\<close>

definition validateKey :: "evtobj \<Rightarrow> val \<Rightarrow> bool" where
  "validateKey ob k =
     (if compound ob then CompoundEvt_validateKey ob k else Evt_validateKey ob k)"

text \<open>The getter \<^verbatim>\<open>locked\<close>, which \<^verbatim>\<open>CompoundEvt\<close> overrides.\<close>

definition locked :: "evtobj \<Rightarrow> bool" where
  "locked ob = (if compound ob then truthy (CompoundEvt_key ob) else truthy (Evt_key ob))"

definition Evt_lock :: "nat \<Rightarrow> world \<Rightarrow> val \<times> world" where
  "Evt_lock this w =
     (if truthy (Evt_key (objs w ! this)) then (VNull, w)
      else (let k = VSymbol (next_sym w)
            in (k, upd this (\<lambda>ob. ob\<lparr>Evt_key := k\<rparr>) (w\<lparr>next_sym := Suc (next_sym w)\<rparr>))))"

definition Evt_unlock :: "nat \<Rightarrow> val \<Rightarrow> world \<Rightarrow> val \<times> world" where
  "Evt_unlock this k w =
     (if Evt_key (objs w ! this) \<noteq> k then (VNull, w)
      else (k, upd this (\<lambda>ob. ob\<lparr>Evt_key := VNull\<rparr>) w))"

definition CompoundEvt_lock :: "nat \<Rightarrow> world \<Rightarrow> val \<times> world" where
  "CompoundEvt_lock this w =
     (if truthy (CompoundEvt_key (objs w ! this)) then (VNull, w)
      else (let k = VSymbol (next_sym w)
            in (k, upd this (\<lambda>ob. ob\<lparr>CompoundEvt_key := k\<rparr>)
                     (w\<lparr>next_sym := Suc (next_sym w)\<rparr>))))"

definition CompoundEvt_unlock :: "nat \<Rightarrow> val \<Rightarrow> world \<Rightarrow> val \<times> world" where
  "CompoundEvt_unlock this k w =
     (if CompoundEvt_key (objs w ! this) \<noteq> k then (VNull, w)
      else (k, upd this (\<lambda>ob. ob\<lparr>CompoundEvt_key := VNull\<rparr>) w))"

text \<open>\<^verbatim>\<open>e.lock()\<close> and \<^verbatim>\<open>e.unlock(key)\<close> on an object of either class.\<close>

definition lock :: "nat \<Rightarrow> world \<Rightarrow> val \<times> world" where
  "lock this w =
     (if compound (objs w ! this) then CompoundEvt_lock this w else Evt_lock this w)"

definition unlock :: "nat \<Rightarrow> val \<Rightarrow> world \<Rightarrow> val \<times> world" where
  "unlock this k w =
     (if compound (objs w ! this) then CompoundEvt_unlock this k w else Evt_unlock this k w)"

subsection \<open>Handler lists\<close>

text \<open>
  The priority operations test \<^verbatim>\<open>!this.key\<close>. The class has no property
  \<^verbatim>\<open>key\<close> (the field is the private \<^verbatim>\<open>#key\<close>), so \<^verbatim>\<open>this.key\<close> is undefined and
  the test is true whatever the lock: with one argument that argument is the
  handler and also the key that is validated.
\<close>

definition addPriorityHandler :: "nat \<Rightarrow> val list \<Rightarrow> world \<Rightarrow> world" where
  "addPriorityHandler this args w =
     (let key = arg args 0;
          handler = (if length args = 1 then key else arg args 1);
          ob = objs w ! this
      in if validateKey ob key \<and> typeof_function handler
            \<and> handler \<notin> set (priorityHandlers ob)
         then upd this (\<lambda>ob. ob\<lparr>priorityHandlers := priorityHandlers ob @ [handler]\<rparr>) w
         else w)"

text \<open>The rest parameter \<^verbatim>\<open>...handlers\<close>, after the \<^verbatim>\<open>unshift\<close> of line 127.\<close>

definition rest_handlers :: "val list \<Rightarrow> val list" where
  "rest_handlers args =
     (if typeof_function (arg args 0) then arg args 0 # tl args else tl args)"

fun addPriorityLoop :: "val list \<Rightarrow> val list \<Rightarrow> val list" where
  "addPriorityLoop [] ps = ps"
| "addPriorityLoop (h # hs) ps =
     addPriorityLoop hs (if typeof_function h \<and> h \<notin> set ps then ps @ [h] else ps)"

definition addPriorityHandlers :: "nat \<Rightarrow> val list \<Rightarrow> world \<Rightarrow> world" where
  "addPriorityHandlers this args w =
     (if validateKey (objs w ! this) (arg args 0)
      then upd this (\<lambda>ob. ob\<lparr>priorityHandlers :=
             addPriorityLoop (rest_handlers args) (priorityHandlers ob)\<rparr>) w
      else w)"

definition removePriorityHandler :: "nat \<Rightarrow> val list \<Rightarrow> world \<Rightarrow> world" where
  "removePriorityHandler this args w =
     (let key = arg args 0;
          handler = (if length args = 1 then key else arg args 1);
          ob = objs w ! this
      in if validateKey ob key \<and> handler \<in> set (priorityHandlers ob)
         then upd this (\<lambda>ob. ob\<lparr>priorityHandlers :=
                splice1 (priorityHandlers ob) (indexOf (priorityHandlers ob) handler)\<rparr>) w
         else w)"

text \<open>Line 160 as it is written: the test is \<^verbatim>\<open>!this.#priorityHandlers.includes(handler)\<close>.\<close>

fun removePriorityLoop :: "val list \<Rightarrow> val list \<Rightarrow> val list" where
  "removePriorityLoop [] ps = ps"
| "removePriorityLoop (h # hs) ps =
     removePriorityLoop hs
       (if typeof_function h \<and> h \<notin> set ps then splice1 ps (indexOf ps h) else ps)"

definition removePriorityHandlers :: "nat \<Rightarrow> val list \<Rightarrow> world \<Rightarrow> world" where
  "removePriorityHandlers this args w =
     (if validateKey (objs w ! this) (arg args 0)
      then upd this (\<lambda>ob. ob\<lparr>priorityHandlers :=
             removePriorityLoop (rest_handlers args) (priorityHandlers ob)\<rparr>) w
      else w)"


text \<open>Line 170 assigns a new array: the one that was there is detached.\<close>

definition clearPriorityHandlers :: "nat \<Rightarrow> val \<Rightarrow> world \<Rightarrow> world" where
  "clearPriorityHandlers this key w =
     (if validateKey (objs w ! this) key
      then upd this (\<lambda>ob. ob\<lparr>priorityHandlers := []\<rparr>)
             (w\<lparr>detached := detached w @ [(this, True, priorityHandlers (objs w ! this))]\<rparr>)
      else w)"

definition addHandler :: "nat \<Rightarrow> val \<Rightarrow> world \<Rightarrow> world" where
  "addHandler this handler w =
     (if typeof_function handler \<and> handler \<notin> set (handlers (objs w ! this))
      then upd this (\<lambda>ob. ob\<lparr>handlers := handlers ob @ [handler]\<rparr>) w else w)"

fun addHandlers :: "nat \<Rightarrow> val list \<Rightarrow> world \<Rightarrow> world" where
  "addHandlers this [] w = w"
| "addHandlers this (h # hs) w = addHandlers this hs (addHandler this h w)"

definition removeHandler :: "nat \<Rightarrow> val \<Rightarrow> world \<Rightarrow> world" where
  "removeHandler this handler w =
     (if handler \<in> set (handlers (objs w ! this))
      then upd this (\<lambda>ob. ob\<lparr>handlers :=
             splice1 (handlers ob) (indexOf (handlers ob) handler)\<rparr>) w
      else w)"

fun removeHandlers :: "nat \<Rightarrow> val list \<Rightarrow> world \<Rightarrow> world" where
  "removeHandlers this [] w = w"
| "removeHandlers this (h # hs) w = removeHandlers this hs (removeHandler this h w)"


text \<open>Line 219 assigns a new array, like line 170.\<close>

definition clearHandlers :: "nat \<Rightarrow> world \<Rightarrow> world" where
  "clearHandlers this w =
     upd this (\<lambda>ob. ob\<lparr>handlers := []\<rparr>)
       (w\<lparr>detached := detached w @ [(this, False, handlers (objs w ! this))]\<rparr>)"

definition on :: "nat \<Rightarrow> val list \<Rightarrow> world \<Rightarrow> world" where
  "on this hs w = (if length hs = 1 then addHandler this (hs ! 0) w else addHandlers this hs w)"

section \<open>Class CompoundEvt\<close>

text \<open>Line 386: with the compound unlocked and an event as first argument, the
  arguments are \<^verbatim>\<open>(evt, evtKey)\<close>. The result is the source and its key.\<close>

definition bind_source :: "nat \<Rightarrow> val list \<Rightarrow> world \<Rightarrow> val \<times> val" where
  "bind_source this args w =
     (if \<not> locked (objs w ! this) \<and> instanceof_Evt w (arg args 0)
      then (arg args 0, arg args 1) else (arg args 1, arg args 2))"

text \<open>Lines 387-395. The closure is a new function object: its identity is the
  next unused number.\<close>

definition bind :: "nat \<Rightarrow> val list \<Rightarrow> world \<Rightarrow> val \<times> world" where
  "bind this args w =
     (let evt = fst (bind_source this args w);
          evtKey = snd (bind_source this args w)
      in if evt = VEvt this
            \<or> \<not> (instanceof_Evt w evt \<and> validateKey (objs w ! this) (arg args 0)
                   \<and> validateKey (objs w ! ref evt) evtKey)
         then (VNull, w)
         else if evt \<in> set (evts (objs w ! this)) then (VEvt this, w)
         else
           (let handler = VRelay (next_fn w) this;
                w1 = addPriorityHandler (ref evt) [evtKey, handler]
                       (w\<lparr>next_fn := Suc (next_fn w)\<rparr>);
                i = length (evts (objs w1 ! this))
            in (VEvt this,
                upd this (\<lambda>ob. ob\<lparr>evts := assign VUndefined (evts ob) i evt,
                                   evtsData := assign None (evtsData ob) i
                                                 (Some (evtKey, handler))\<rparr>) w1)))"

text \<open>Line 408: the source of an \<^verbatim>\<open>unbind\<close>.\<close>

definition unbind_source :: "nat \<Rightarrow> val list \<Rightarrow> world \<Rightarrow> val" where
  "unbind_source this args w =
     (if \<not> locked (objs w ! this) \<and> instanceof_Evt w (arg args 0)
      then arg args 0 else arg args 1)"

text \<open>Lines 409-416. Reading \<^verbatim>\<open>evtData.key\<close> of a hole or beyond the end of
  \<^verbatim>\<open>#evtsData\<close> throws.\<close>

definition unbind :: "nat \<Rightarrow> val list \<Rightarrow> world \<Rightarrow> (val \<times> world) option" where
  "unbind this args w =
     (let evt = unbind_source this args w
      in if \<not> (instanceof_Evt w evt \<and> evt \<in> set (evts (objs w ! this))) then Some (VNull, w)
         else
           (let i = indexOf (evts (objs w ! this)) evt
            in case (if nat i < length (evtsData (objs w ! this))
                     then evtsData (objs w ! this) ! nat i else None) of
                 None \<Rightarrow> None
               | Some (k, handler) \<Rightarrow>
                   if \<not> (validateKey (objs w ! this) (arg args 0)
                          \<and> validateKey (objs w ! ref evt) k)
                   then Some (VNull, w)
                   else Some (VEvt this,
                          upd this (\<lambda>ob. ob\<lparr>evts := splice1 (evts ob) i,
                                             evtsData := splice1 (evtsData ob) i\<rparr>)
                            (removePriorityHandler (ref evt) [k, handler] w))))"

section \<open>The constructors\<close>

text \<open>The constructors: \<^verbatim>\<open>Evt.#key\<close> starts as \<^verbatim>\<open>null\<close>, \<^verbatim>\<open>CompoundEvt.#key\<close> is
  declared without a value.\<close>

definition new_Evt :: "string \<Rightarrow> world \<Rightarrow> val \<times> world" where
  "new_Evt n w =
     (VEvt (length (objs w)),
      w\<lparr>objs := objs w @ [\<lparr>name = n, priorityHandlers = [], handlers = [], Evt_key = VNull,
                           pending = False, compound = False, CompoundEvt_key = VUndefined,
                           evts = [], evtsData = []\<rparr>]\<rparr>)"

definition new_CompoundEvt :: "string \<Rightarrow> world \<Rightarrow> val \<times> world" where
  "new_CompoundEvt n w =
     (VEvt (length (objs w)),
      w\<lparr>objs := objs w @ [\<lparr>name = n, priorityHandlers = [], handlers = [], Evt_key = VNull,
                           pending = False, compound = True, CompoundEvt_key = VUndefined,
                           evts = [], evtsData = []\<rparr>]\<rparr>)"


section \<open>Firing\<close>

text \<open>
  A call of an event invokes handlers. A relay handler calls a compound event; a
  caller's function may call any method of any event, \<^verbatim>\<open>call\<close> included, or
  throw. The functions below take the method \<^verbatim>\<open>call\<close> that a handler reaches as a
  parameter \<open>cf\<close>; \<open>call\<close> itself is defined by recursion on a bound \<open>n\<close> of the
  nesting depth of calls and of the number of turns of each loop.

  A run has one of three results. \<open>Some (Returned r, w)\<close>: it returns \<open>r\<close> and
  leaves the store \<open>w\<close>. \<open>Some (Thrown, w)\<close>: an exception leaves it, with the store
  as it is at that moment. \<open>None\<close>: it does not end within the bound, or it is
  no run of a program (a method is called on an address with no object).
\<close>

datatype 'a outcome =
    Returned 'a
  | Thrown

type_synonym callfn =
  "nat \<Rightarrow> val \<Rightarrow> val \<Rightarrow> val \<Rightarrow> opts \<Rightarrow> world \<Rightarrow> (firing option outcome \<times> world) option"

text \<open>One method call: what it returns and the store it leaves. \<^verbatim>\<open>bind\<close> and
  \<^verbatim>\<open>unbind\<close> are methods of \<^verbatim>\<open>CompoundEvt\<close> only: on another event the call throws a
  TypeError, and so does \<^verbatim>\<open>unbind\<close> at the hole.\<close>

fun perform :: "callfn \<Rightarrow> op \<Rightarrow> world \<Rightarrow> (ret outcome \<times> world) option" where
  "perform cf (NewEvt n) w = Some (Returned (Ret (fst (new_Evt n w))), snd (new_Evt n w))"
| "perform cf (NewCompoundEvt n) w =
     Some (Returned (Ret (fst (new_CompoundEvt n w))), snd (new_CompoundEvt n w))"
| "perform cf (Lock e) w = Some (Returned (Ret (fst (lock e w))), snd (lock e w))"
| "perform cf (Unlock e k) w = Some (Returned (Ret (fst (unlock e k w))), snd (unlock e k w))"
| "perform cf (AddPriorityHandler e a) w = Some (Returned (Ret VUndefined), addPriorityHandler e a w)"
| "perform cf (AddPriorityHandlers e a) w = Some (Returned (Ret VUndefined), addPriorityHandlers e a w)"
| "perform cf (RemovePriorityHandler e a) w =
     Some (Returned (Ret VUndefined), removePriorityHandler e a w)"
| "perform cf (RemovePriorityHandlers e a) w =
     Some (Returned (Ret VUndefined), removePriorityHandlers e a w)"
| "perform cf (ClearPriorityHandlers e k) w =
     Some (Returned (Ret VUndefined), clearPriorityHandlers e k w)"
| "perform cf (AddHandler e h) w = Some (Returned (Ret VUndefined), addHandler e h w)"
| "perform cf (AddHandlers e hs) w = Some (Returned (Ret VUndefined), addHandlers e hs w)"
| "perform cf (RemoveHandler e h) w = Some (Returned (Ret VUndefined), removeHandler e h w)"
| "perform cf (RemoveHandlers e hs) w = Some (Returned (Ret VUndefined), removeHandlers e hs w)"
| "perform cf (ClearHandlers e) w = Some (Returned (Ret VUndefined), clearHandlers e w)"
| "perform cf (On e hs) w = Some (Returned (Ret VUndefined), on e hs w)"
| "perform cf (Call e k c d opts) w =
     (case cf e k c d opts w of
        None \<Rightarrow> None
      | Some (Thrown, w') \<Rightarrow> Some (Thrown, w')
      | Some (Returned None, w') \<Rightarrow> Some (Returned (Ret VNull), w')
      | Some (Returned (Some i), w') \<Rightarrow> Some (Returned (RetInstance i), w'))"
| "perform cf (Bind e a) w =
     (if compound (objs w ! e)
      then Some (Returned (Ret (fst (bind e a w))), snd (bind e a w))
      else Some (Thrown, w))"
| "perform cf (Unbind e a) w =
     (if compound (objs w ! e)
      then (case unbind e a w of
              None \<Rightarrow> Some (Thrown, w)
            | Some (v, w') \<Rightarrow> Some (Returned (Ret v), w'))
      else Some (Thrown, w))"

text \<open>A method is called on an object of the store.\<close>

definition step_with :: "callfn \<Rightarrow> op \<Rightarrow> world \<Rightarrow> (ret outcome \<times> world) option" where
  "step_with cf x w =
     (case target x of
        None \<Rightarrow> perform cf x w
      | Some e \<Rightarrow> if e < length (objs w) then perform cf x w else None)"

text \<open>The body of a caller's function, from the action \<open>as\<close> on. \<open>cancelled\<close> is the
  flag of the call whose firing record the function was invoked with: \<^verbatim>\<open>cancel()\<close>
  sets it. An exception of a method that the body calls leaves the body.\<close>

fun runBody ::
  "callfn \<Rightarrow> action list \<Rightarrow> bool \<Rightarrow> world \<Rightarrow> (bool outcome \<times> world) option" where
  "runBody cf [] cancelled w = Some (Returned cancelled, w)"
| "runBody cf (Cancel # as) cancelled w = runBody cf as True w"
| "runBody cf (Throw # as) cancelled w = Some (Thrown, w)"
| "runBody cf (Do x # as) cancelled w =
     (case step_with cf x w of
        None \<Rightarrow> None
      | Some (Thrown, w') \<Rightarrow> Some (Thrown, w')
      | Some (Returned r, w') \<Rightarrow> runBody cf as cancelled w')"

text \<open>The private method \<^verbatim>\<open>CompoundEvt.#call(e)\<close>.\<close>

definition CompoundEvt_private_call ::
  "callfn \<Rightarrow> nat \<Rightarrow> firing \<Rightarrow> world \<Rightarrow> (firing option outcome \<times> world) option" where
  "CompoundEvt_private_call cf this e w =
     cf this (CompoundEvt_key (objs w ! this)) (caller e) (data e)
        \<lparr>overrideEvt = evt e, overrideTime = time e\<rparr> w"

text \<open>
  \<^verbatim>\<open>handler(instance, this)\<close>, when the flag of the call is \<open>cancelled\<close>. The result is
  the flag afterwards: a caller's function sets it as its body says, the relay
  never (it passes only \<^verbatim>\<open>e\<close>'s fields on, and drops what \<^verbatim>\<open>#call\<close> returns). An
  element that is no function cannot be called: a TypeError.
\<close>

fun invoke ::
  "callfn \<Rightarrow> val \<Rightarrow> firing \<Rightarrow> nat \<Rightarrow> bool \<Rightarrow> world \<Rightarrow> (bool outcome \<times> world) option" where
  "invoke cf (VFunction i) e this cancelled w =
     runBody cf (code w i) cancelled (log (Invoked (VFunction i) e (VEvt this)) w)"
| "invoke cf (VRelay i c) e this cancelled w =
     (if c < length (objs w) \<and> compound (objs w ! c)
      then (case CompoundEvt_private_call cf c e (log (Invoked (VRelay i c) e (VEvt this)) w) of
              None \<Rightarrow> None
            | Some (Thrown, w') \<Rightarrow> Some (Thrown, w')
            | Some (Returned r, w') \<Rightarrow> Some (Returned cancelled, w'))
      else None)"
| "invoke cf h e this cancelled w = Some (Thrown, w)"

text \<open>
  The array that a \<^verbatim>\<open>for ... of\<close> loop over a handler list of \<open>this\<close> iterates,
  when \<open>g\<close> arrays had been detached at the start of the loop: the array the field
  refers to, unless the field has been assigned since; then the first array
  detached from it since, which is the one the loop started with.
\<close>

definition current :: "bool \<Rightarrow> nat \<Rightarrow> nat \<Rightarrow> world \<Rightarrow> val list" where
  "current priority this g w =
     (case find (\<lambda>d. fst d = this \<and> fst (snd d) = priority) (drop g (detached w)) of
        Some d \<Rightarrow> snd (snd d)
      | None \<Rightarrow> if priority then priorityHandlers (objs w ! this) else handlers (objs w ! this))"

text \<open>The loop of lines 271-275, from the index \<open>k\<close> of the array iterator on: each
  turn looks at the array as it is then; the flag is tested after each invocation.\<close>

primrec dispatchPriority ::
  "nat \<Rightarrow> callfn \<Rightarrow> nat \<Rightarrow> firing \<Rightarrow> nat \<Rightarrow> nat \<Rightarrow> world \<Rightarrow> (bool outcome \<times> world) option" where
  "dispatchPriority 0 cf this e g k w = None"
| "dispatchPriority (Suc m) cf this e g k w =
     (if k < length (current True this g w)
      then (case invoke cf (current True this g w ! k) e this False w of
              None \<Rightarrow> None
            | Some (Thrown, w') \<Rightarrow> Some (Thrown, w')
            | Some (Returned cancelled, w') \<Rightarrow>
                if cancelled then Some (Returned True, w')
                else dispatchPriority m cf this e g (Suc k) w')
      else Some (Returned False, w))"

text \<open>The loop of lines 277-281: the flag is tested before each invocation.\<close>

primrec dispatchNormal ::
  "nat \<Rightarrow> callfn \<Rightarrow> nat \<Rightarrow> firing \<Rightarrow> nat \<Rightarrow> nat \<Rightarrow> bool \<Rightarrow> world
     \<Rightarrow> (bool outcome \<times> world) option" where
  "dispatchNormal 0 cf this e g k cancelled w = None"
| "dispatchNormal (Suc m) cf this e g k cancelled w =
     (if k < length (current False this g w)
      then (if cancelled then Some (Returned True, w)
            else (case invoke cf (current False this g w ! k) e this False w of
                    None \<Rightarrow> None
                  | Some (Thrown, w') \<Rightarrow> Some (Thrown, w')
                  | Some (Returned c, w') \<Rightarrow> dispatchNormal m cf this e g (Suc k) c w'))
      else Some (Returned cancelled, w))"

text \<open>The record of lines 263-269; \<^verbatim>\<open>Date.now()\<close> is read only when
  \<^verbatim>\<open>opts.overrideTime\<close> is falsy.\<close>

definition getInstance :: "nat \<Rightarrow> val \<Rightarrow> val \<Rightarrow> opts \<Rightarrow> world \<Rightarrow> firing" where
  "getInstance this c d opts w =
     \<lparr>caller = c,
      evt = (if truthy (overrideEvt opts) then overrideEvt opts else VEvt this),
      data = d,
      time = (if truthy (overrideTime opts) then overrideTime opts
              else VNumber (now w (reads w)))\<rparr>"

definition tick :: "opts \<Rightarrow> world \<Rightarrow> world" where
  "tick opts w = (if truthy (overrideTime opts) then w else w\<lparr>reads := Suc (reads w)\<rparr>)"

text \<open>The default \<^verbatim>\<open>= null\<close> of a parameter applies to \<^verbatim>\<open>undefined\<close>.\<close>

definition default_null :: "val \<Rightarrow> val" where
  "default_null v = (if v = VUndefined then VNull else v)"


text \<open>Lines 257-285. Nothing catches an exception of a handler: it leaves
  \<^verbatim>\<open>call\<close> before line 283.\<close>

primrec call :: "nat \<Rightarrow> callfn" where
  "call 0 = (\<lambda>this key c d opts w. None)"
| "call (Suc n) = (\<lambda>this key c d opts w.
     if \<not> this < length (objs w) then None
     else if pending (objs w ! this) \<or> \<not> validateKey (objs w ! this) key
     then Some (Returned None, w)
     else
       (let w1 = upd this (\<lambda>ob. ob\<lparr>pending := True\<rparr>) w;
            instance = getInstance this (default_null c) (default_null d) opts w1;
            w2 = log (Fired this instance) (tick opts w1)
        in case dispatchPriority n (call n) this instance (length (detached w2)) 0 w2 of
             None \<Rightarrow> None
           | Some (Thrown, w3) \<Rightarrow> Some (Thrown, w3)
           | Some (Returned cancelled, w3) \<Rightarrow>
              (case dispatchNormal n (call n) this instance (length (detached w3)) 0
                      cancelled w3 of
                 None \<Rightarrow> None
               | Some (Thrown, w4) \<Rightarrow> Some (Thrown, w4)
               | Some (Returned cancelled', w4) \<Rightarrow>
                   Some (Returned (Some instance),
                         upd this (\<lambda>ob. ob\<lparr>pending := False\<rparr>) w4))))"

section \<open>The operations of a caller\<close>

text \<open>One operation of a caller, and a sequence of them; the caller goes on after
  an exception. \<open>n\<close> bounds each call as above.\<close>

definition step :: "nat \<Rightarrow> op \<Rightarrow> world \<Rightarrow> (ret outcome \<times> world) option" where
  "step n x w = step_with (call n) x w"

fun run :: "nat \<Rightarrow> op list \<Rightarrow> world \<Rightarrow> world option" where
  "run n [] w = Some w"
| "run n (x # xs) w = (case step n x w of None \<Rightarrow> None | Some (r, w') \<Rightarrow> run n xs w')"



section \<open>Properties of stores and logs\<close>

text \<open>Whether the body of a handler calls \<^verbatim>\<open>cancel()\<close>, given the bodies \<open>C\<close>.\<close>

fun cancels :: "(nat \<Rightarrow> action list) \<Rightarrow> val \<Rightarrow> bool" where
  "cancels C (VFunction i) = (Cancel \<in> set (C i))"
| "cancels C h = False"

text \<open>The handlers of a list that run: all up to and including the first one
  that cancels.\<close>

fun upto_cancel :: "(nat \<Rightarrow> action list) \<Rightarrow> val list \<Rightarrow> val list" where
  "upto_cancel C [] = []"
| "upto_cancel C (h # hs) = (if cancels C h then [h] else h # upto_cancel C hs)"


fun fired :: "nat \<Rightarrow> entry \<Rightarrow> bool" where
  "fired e (Fired d i) = (d = e)"
| "fired e (Invoked h i t) = False"



text \<open>The methods that may change a handler list of event \<open>e\<close>: those of \<open>e\<close> for
  its lists, and \<^verbatim>\<open>bind\<close> and \<^verbatim>\<open>unbind\<close> with \<open>e\<close> among the arguments.\<close>

fun edits :: "nat \<Rightarrow> op \<Rightarrow> bool" where
  "edits e (AddPriorityHandler t a) = (t = e)"
| "edits e (AddPriorityHandlers t a) = (t = e)"
| "edits e (RemovePriorityHandler t a) = (t = e)"
| "edits e (RemovePriorityHandlers t a) = (t = e)"
| "edits e (ClearPriorityHandlers t k) = (t = e)"
| "edits e (AddHandler t h) = (t = e)"
| "edits e (AddHandlers t hs) = (t = e)"
| "edits e (RemoveHandler t h) = (t = e)"
| "edits e (RemoveHandlers t hs) = (t = e)"
| "edits e (ClearHandlers t) = (t = e)"
| "edits e (On t hs) = (t = e)"
| "edits e (Bind c a) = (VEvt e \<in> set a)"
| "edits e (Unbind c a) = (VEvt e \<in> set a)"
| "edits e x = False"

text \<open>Every method call in the bodies \<open>C\<close> satisfies \<open>A\<close>; and the bodies that call
  no method and do not throw.\<close>

definition scripted :: "(op \<Rightarrow> bool) \<Rightarrow> (nat \<Rightarrow> action list) \<Rightarrow> bool" where
  "scripted A C = (\<forall>i x. Do x \<in> set (C i) \<longrightarrow> A x)"


text \<open>What every run keeps: the objects there are, the events that are in the
  middle of a call, the bodies of the functions, and the arrays detached so far.\<close>

definition keeps :: "world \<Rightarrow> world \<Rightarrow> bool" where
  "keeps w w' =
     (length (objs w) \<le> length (objs w')
      \<and> (\<forall>e < length (objs w). pending (objs w ! e) \<longrightarrow> pending (objs w' ! e))
      \<and> code w' = code w
      \<and> take (length (detached w)) (detached w') = detached w)"

definition cf_keeps :: "callfn \<Rightarrow> bool" where
  "cf_keeps cf =
     (\<forall>this key c d opts w r w'. cf this key c d opts w = Some (r, w') \<longrightarrow> keeps w w')"

text \<open>A property of stores that the method \<open>cf\<close> preserves.\<close>

definition cf_inv :: "(world \<Rightarrow> bool) \<Rightarrow> callfn \<Rightarrow> bool" where
  "cf_inv P cf =
     (\<forall>this key c d opts w r w'. P w \<longrightarrow> cf this key c d opts w = Some (r, w') \<longrightarrow> P w')"

text \<open>The relays among the handlers of an object.\<close>

definition relays_of :: "evtobj \<Rightarrow> nat set" where
  "relays_of ob = {c. \<exists>i. VRelay i c \<in> set (priorityHandlers ob) \<union> set (handlers ob)}"

text \<open>The store in which the loops of a call that has passed the guard start.\<close>

definition entered :: "nat \<Rightarrow> val \<Rightarrow> val \<Rightarrow> opts \<Rightarrow> world \<Rightarrow> world" where
  "entered this c d opts w =
     log (Fired this (getInstance this (default_null c) (default_null d) opts w))
       (tick opts (upd this (\<lambda>ob. ob\<lparr>pending := True\<rparr>) w))"

text \<open>Whatever \<open>cf\<close> returns, \<open>cf'\<close> returns too.\<close>

definition cf_le :: "callfn \<Rightarrow> callfn \<Rightarrow> bool" where
  "cf_le cf cf' =
     (\<forall>this key c d opts w r. cf this key c d opts w = Some r \<longrightarrow> cf' this key c d opts w = Some r)"



text \<open>
  Well-formed stores. A handler found in the priority list of event \<open>s\<close> is a
  caller's function, or a relay that its compound has on record for \<open>s\<close>.
\<close>

fun recorded :: "evtobj list \<Rightarrow> nat \<Rightarrow> val \<Rightarrow> bool" where
  "recorded os s (VFunction i) = True"
| "recorded os s (VRelay j c) =
     (c < length os \<and> compound (os ! c)
      \<and> (\<exists>k. (VEvt s, Some (k, VRelay j c)) \<in> set (zip (evts (os ! c)) (evtsData (os ! c)))))"
| "recorded os s h = False"

fun user_function :: "val \<Rightarrow> bool" where
  "user_function (VFunction i) = True"
| "user_function h = False"


text \<open>A binding of compound \<open>c\<close>: a source other than \<open>c\<close>, with the key and a
  relay of \<open>c\<close> that was made before now.\<close>

fun binding_ok :: "world \<Rightarrow> nat \<Rightarrow> val \<times> (val \<times> val) option \<Rightarrow> bool" where
  "binding_ok w c (VEvt s, Some (k, VRelay j c')) =
     (s < length (objs w) \<and> s \<noteq> c \<and> c' = c \<and> j < next_fn w)"
| "binding_ok w c b = False"

definition wf_obj :: "world \<Rightarrow> nat \<Rightarrow> bool" where
  "wf_obj w e =
     (distinct (priorityHandlers (objs w ! e)) \<and> distinct (handlers (objs w ! e))
      \<and> (\<forall>h \<in> set (priorityHandlers (objs w ! e)). recorded (objs w) e h)
      \<and> (\<forall>h \<in> set (handlers (objs w ! e)). user_function h)
      \<and> length (evts (objs w ! e)) = length (evtsData (objs w ! e))
      \<and> distinct (evts (objs w ! e))
      \<and> (\<forall>b \<in> set (zip (evts (objs w ! e)) (evtsData (objs w ! e))). binding_ok w e b))"

definition wf :: "world \<Rightarrow> bool" where
  "wf w = (\<forall>e < length (objs w). wf_obj w e)"

text \<open>A later store that has every object of the earlier one with the same
  class and the same bindings.\<close>

definition same_bindings :: "world \<Rightarrow> world \<Rightarrow> bool" where
  "same_bindings w w' =
     (length (objs w) \<le> length (objs w') \<and> next_fn w \<le> next_fn w'
      \<and> (\<forall>c < length (objs w).
            compound (objs w' ! c) = compound (objs w ! c)
            \<and> evts (objs w' ! c) = evts (objs w ! c)
            \<and> evtsData (objs w' ! c) = evtsData (objs w ! c)))"

text \<open>
  The two arrays of compound \<open>c\<close> are aligned: they have the same length, no
  source is listed twice, the entry beside a source holds a key and a relay of \<open>c\<close>,
  and a relay of \<open>c\<close> that is in the priority list of an event is the handler
  of the entry beside that event.
\<close>

definition bindings :: "world \<Rightarrow> nat \<Rightarrow> (val \<times> (val \<times> val) option) list" where
  "bindings w c = zip (evts (objs w ! c)) (evtsData (objs w ! c))"

definition aligned :: "world \<Rightarrow> nat \<Rightarrow> bool" where
  "aligned w c =
     (length (evts (objs w ! c)) = length (evtsData (objs w ! c))
      \<and> distinct (evts (objs w ! c))
      \<and> (\<forall>b \<in> set (bindings w c). binding_ok w c b)
      \<and> (\<forall>s < length (objs w). \<forall>j.
            VRelay j c \<in> set (priorityHandlers (objs w ! s)) \<longrightarrow>
            (\<exists>k. (VEvt s, Some (k, VRelay j c)) \<in> set (bindings w c))))"

text \<open>What a caller can pass: any value but a relay, which never leaves the
  private fields it is stored in.\<close>

fun user_val :: "val \<Rightarrow> bool" where
  "user_val (VRelay i c) = False"
| "user_val v = True"

fun user_op :: "op \<Rightarrow> bool" where
  "user_op (AddPriorityHandler e a) = list_all user_val a"
| "user_op (AddPriorityHandlers e a) = list_all user_val a"
| "user_op (RemovePriorityHandler e a) = list_all user_val a"
| "user_op (RemovePriorityHandlers e a) = list_all user_val a"
| "user_op (AddHandler e h) = user_val h"
| "user_op (AddHandlers e hs) = list_all user_val hs"
| "user_op (RemoveHandler e h) = user_val h"
| "user_op (RemoveHandlers e hs) = list_all user_val hs"
| "user_op (On e hs) = list_all user_val hs"
| "user_op (Bind e a) = list_all user_val a"
| "user_op (Unbind e a) = list_all user_val a"
| "user_op x = True"

text \<open>No handler twice in a list.\<close>

definition no_dups :: "world \<Rightarrow> bool" where
  "no_dups w =
     (\<forall>ob \<in> set (objs w). distinct (priorityHandlers ob) \<and> distinct (handlers ob))"

text \<open>The number of events that are not in the middle of a call.\<close>

definition idle :: "evtobj list \<Rightarrow> nat" where
  "idle os = length (filter (\<lambda>ob. \<not> pending ob) os)"

text \<open>A handler that can be invoked: a function, and for a relay its compound
  is an object of the store.\<close>

fun callable :: "evtobj list \<Rightarrow> val \<Rightarrow> bool" where
  "callable os (VFunction i) = True"
| "callable os (VRelay i c) = (c < length os \<and> compound (os ! c))"
| "callable os h = False"


definition handlers_ok :: "evtobj list \<Rightarrow> bool" where
  "handlers_ok os =
     (\<forall>ob \<in> set os. \<forall>h \<in> set (priorityHandlers ob) \<union> set (handlers ob). callable os h)"


section \<open>Example stores\<close>

definition w_init :: world where
  "w_init = \<lparr>objs = [], next_sym = 0, next_fn = 0, now = (\<lambda>k. 1000 + int k), reads = 0,
            trace = [], code = (\<lambda>i. []), detached = []\<rparr>"


text \<open>One unlocked event whose priority list holds two functions.\<close>

definition w_two :: world where
  "w_two = addPriorityHandlers 0 [VFunction 1, VFunction 2]
             (snd (new_Evt ''evt'' w_init))"



text \<open>A compound (object 0) and an event (object 1), both unlocked; and the same
  after \<^verbatim>\<open>compound.bind(evt)\<close>.\<close>

definition w_pair :: world where
  "w_pair = snd (new_Evt ''evt'' (snd (new_CompoundEvt ''compound'' w_init)))"

definition w_bound :: world where
  "w_bound = snd (bind 0 [VEvt 1] w_pair)"

text \<open>What a method other than \<^verbatim>\<open>call\<close> can change: the store \<open>w'\<close> has the objects
  of \<open>w\<close>, maybe more, with the same events in the middle of a call; the handler
  lists of the objects outside \<open>S\<close> are as before, and the arrays detached since
  are of objects in \<open>S\<close>.\<close>

definition evolves :: "nat set \<Rightarrow> world \<Rightarrow> world \<Rightarrow> bool" where
  "evolves S w w' =
     (length (objs w) \<le> length (objs w') \<and> code w' = code w \<and> trace w' = trace w
      \<and> now w' = now w \<and> reads w' = reads w
      \<and> next_sym w \<le> next_sym w' \<and> next_fn w \<le> next_fn w'
      \<and> (\<exists>D. detached w' = detached w @ D \<and> (\<forall>d \<in> set D. fst d \<in> S))
      \<and> (\<forall>e < length (objs w).
            pending (objs w' ! e) = pending (objs w ! e)
            \<and> compound (objs w' ! e) = compound (objs w ! e)
            \<and> (e \<notin> S \<longrightarrow> priorityHandlers (objs w' ! e) = priorityHandlers (objs w ! e)
                          \<and> handlers (objs w' ! e) = handlers (objs w ! e))))"

text \<open>
  A property \<open>P\<close> of stores that no call can destroy: the bodies of the functions
  call only methods that satisfy \<open>A\<close>; such a method, unless it is \<^verbatim>\<open>call\<close>,
  preserves \<open>P\<close>; and so do the steps of \<^verbatim>\<open>call\<close> itself, for the events that can
  pass the entry guard, which satisfy \<open>G\<close>.
\<close>

definition closed :: "(world \<Rightarrow> bool) \<Rightarrow> (op \<Rightarrow> bool) \<Rightarrow> (nat \<Rightarrow> bool) \<Rightarrow> bool" where
  "closed P A G =
     ((\<forall>w. P w \<longrightarrow> scripted A (code w))
      \<and> (\<forall>cf x w r w'. A x \<longrightarrow> (\<forall>t k c d opts. x \<noteq> Call t k c d opts) \<longrightarrow> P w \<longrightarrow>
            step_with cf x w = Some (r, w') \<longrightarrow> P w')
      \<and> (\<forall>w D c d opts. P w \<longrightarrow> D < length (objs w) \<longrightarrow> \<not> pending (objs w ! D) \<longrightarrow>
            G D \<and> P (entered D c d opts w))
      \<and> (\<forall>w D h i. P w \<longrightarrow> G D \<longrightarrow> D < length (objs w) \<longrightarrow> pending (objs w ! D) \<longrightarrow>
            P (log (Invoked h i (VEvt D)) w))
      \<and> (\<forall>w D. P w \<longrightarrow> G D \<longrightarrow> D < length (objs w) \<longrightarrow> pending (objs w ! D) \<longrightarrow>
            P (upd D (\<lambda>ob. ob\<lparr>pending := False\<rparr>) w)))"








section \<open>Array lemmas\<close>

lemma indexOf_notin: "x \<notin> set xs \<Longrightarrow> indexOf xs x = - 1"
  by (induction xs) (auto simp: Let_def)

lemma indexOf_in:
  "x \<in> set xs \<Longrightarrow>
     0 \<le> indexOf xs x \<and> nat (indexOf xs x) < length xs \<and> xs ! nat (indexOf xs x) = x"
  by (induction xs) (auto simp: Let_def nat_add_distrib)

lemma splice1_nat:
  "0 \<le> i \<Longrightarrow> nat i < length xs \<Longrightarrow> splice1 xs i = take (nat i) xs @ drop (Suc (nat i)) xs"
  by (auto simp: splice1_def Let_def min_def nat_add_distrib)

lemma splice1_indexOf: "x \<in> set xs \<Longrightarrow> splice1 xs (indexOf xs x) = remove1 x xs"
proof (induction xs)
  case Nil
  then show ?case by simp
next
  case (Cons y ys)
  show ?case
  proof (cases "y = x")
    case True
    then show ?thesis by (simp add: splice1_def)
  next
    case False
    with Cons.prems have xin: "x \<in> set ys" by simp
    from indexOf_in[OF xin] have i: "0 \<le> indexOf ys x" "nat (indexOf ys x) < length ys"
      by auto
    have "splice1 (y # ys) (indexOf ys x + 1) = y # splice1 ys (indexOf ys x)"
      using i by (simp add: splice1_nat nat_add_distrib)
    with False Cons.IH[OF xin] i show ?thesis by (simp add: Let_def)
  qed
qed

lemma splice1_minus1: "splice1 xs (- 1) = butlast xs"
  by (cases xs rule: rev_cases) (auto simp: splice1_def Let_def max_def min_def nat_add_distrib)

lemma splice1_absent: "x \<notin> set xs \<Longrightarrow> splice1 xs (indexOf xs x) = butlast xs"
  by (simp add: indexOf_notin splice1_minus1)

section \<open>Removing several priority handlers\<close>

lemma w_two_objs:
  "objs w_two = [\<lparr>name = ''evt'', priorityHandlers = [VFunction 1, VFunction 2],
                  handlers = [], Evt_key = VNull, pending = False, compound = False,
                  CompoundEvt_key = VUndefined, evts = [], evtsData = []\<rparr>]"
  by (simp add: w_two_def w_init_def new_Evt_def addPriorityHandlers_def validateKey_def
      Evt_validateKey_def arg_def rest_handlers_def upd_def)

text \<open>
  C3. \<^verbatim>\<open>removePriorityHandlers\<close> on an unlocked event whose priority list is
  \<open>[f1, f2]\<close>: asked to remove \<open>f1\<close>, which is in the list, it removes nothing;
  asked to remove \<open>f3\<close>, which is not in the list, it removes the last element
  \<open>f2\<close>. The single-handler method \<^verbatim>\<open>removePriorityHandler\<close> removes \<open>f1\<close> and
  leaves the list alone for \<open>f3\<close>.
\<close>

theorem removePriorityHandlers_inverted:
  "priorityHandlers (objs (removePriorityHandlers 0 [VFunction 1] w_two) ! 0)
     = [VFunction 1, VFunction 2]
   \<and> priorityHandlers (objs (removePriorityHandlers 0 [VFunction 3] w_two) ! 0)
     = [VFunction 1]
   \<and> priorityHandlers (objs (removePriorityHandler 0 [VFunction 1] w_two) ! 0)
     = [VFunction 2]
   \<and> priorityHandlers (objs (removePriorityHandler 0 [VFunction 3] w_two) ! 0)
     = [VFunction 1, VFunction 2]"
  by (simp add: removePriorityHandlers_def removePriorityHandler_def w_two_objs validateKey_def
      Evt_validateKey_def arg_def rest_handlers_def upd_def splice1_def Let_def)


section \<open>The lock state under the operations\<close>



















lemma lock_next_sym: "next_sym w \<le> next_sym (snd (lock t w))"
  by (simp add: lock_def Evt_lock_def CompoundEvt_lock_def upd_def Let_def)

lemma unlock_next_sym: "next_sym (snd (unlock t k w)) = next_sym w"
  by (simp add: unlock_def Evt_unlock_def CompoundEvt_unlock_def upd_def)






section \<open>What bind and unbind compute\<close>

lemma upd_id: "f (objs w ! t) = objs w ! t \<Longrightarrow> upd t f w = w"
  by (simp add: upd_def)

lemma upd_cong: "f (objs w ! t) = g (objs w ! t) \<Longrightarrow> upd t f w = upd t g w"
  by (simp add: upd_def)

lemma upd_nth:
  "objs (upd t f w) ! c = (if c = t \<and> t < length (objs w) then f (objs w ! t) else objs w ! c)"
proof (cases "t < length (objs w)")
  case True
  then show ?thesis by (simp add: upd_def nth_list_update)
next
  case False
  then show ?thesis by (simp add: upd_def list_update_beyond)
qed

lemma upd_length: "length (objs (upd t f w)) = length (objs w)"
  by (simp add: upd_def)

lemma instanceof_EvtE:
  assumes "instanceof_Evt w v"
  obtains s where "v = VEvt s" "s < length (objs w)"
  using assms by (cases v) auto

lemma removePriorityHandler_remove1:
  assumes "validateKey (objs w ! s) k"
  shows "removePriorityHandler s [k, h] w =
         upd s (\<lambda>ob. ob\<lparr>priorityHandlers := remove1 h (priorityHandlers ob)\<rparr>) w"
proof (cases "h \<in> set (priorityHandlers (objs w ! s))")
  case True
  with assms show ?thesis
    by (simp add: removePriorityHandler_def arg_def splice1_indexOf upd_def)
next
  case False
  then have "remove1 h (priorityHandlers (objs w ! s)) = priorityHandlers (objs w ! s)"
    by (simp add: remove1_idem)
  then have "upd s (\<lambda>ob. ob\<lparr>priorityHandlers := remove1 h (priorityHandlers ob)\<rparr>) w = w"
    by (intro upd_id) simp
  with False show ?thesis by (simp add: removePriorityHandler_def arg_def)
qed

lemma addPriorityHandler_push:
  assumes "validateKey (objs w ! s) k" "typeof_function h"
    "h \<notin> set (priorityHandlers (objs w ! s))"
  shows "addPriorityHandler s [k, h] w =
         upd s (\<lambda>ob. ob\<lparr>priorityHandlers := priorityHandlers ob @ [h]\<rparr>) w"
  using assms by (simp add: addPriorityHandler_def arg_def)

text \<open>The three outcomes of \<open>bind\<close>.\<close>

lemma bind_refused:
  assumes "bind_source c args w = (ev, evKey)"
    and "ev = VEvt c \<or> \<not> instanceof_Evt w ev \<or> \<not> validateKey (objs w ! c) (arg args 0)
         \<or> \<not> validateKey (objs w ! ref ev) evKey"
  shows "bind c args w = (VNull, w)"
  using assms by (auto simp: bind_def Let_def)

lemma bind_bound:
  assumes "bind_source c args w = (ev, evKey)"
    and "ev \<noteq> VEvt c" "instanceof_Evt w ev" "validateKey (objs w ! c) (arg args 0)"
      "validateKey (objs w ! ref ev) evKey"
    and "ev \<in> set (evts (objs w ! c))"
  shows "bind c args w = (VEvt c, w)"
  using assms by (auto simp: bind_def Let_def)

lemma bind_new:
  assumes src: "bind_source c args w = (ev, evKey)"
    and ok: "ev \<noteq> VEvt c" "instanceof_Evt w ev" "validateKey (objs w ! c) (arg args 0)"
      "validateKey (objs w ! ref ev) evKey"
    and nb: "ev \<notin> set (evts (objs w ! c))"
    and fresh: "VRelay (next_fn w) c \<notin> set (priorityHandlers (objs w ! ref ev))"
    and len: "length (evts (objs w ! c)) = length (evtsData (objs w ! c))"
  shows "bind c args w =
     (VEvt c,
      upd c (\<lambda>ob. ob\<lparr>evts := evts ob @ [ev],
                       evtsData := evtsData ob @ [Some (evKey, VRelay (next_fn w) c)]\<rparr>)
        (upd (ref ev) (\<lambda>ob. ob\<lparr>priorityHandlers := priorityHandlers ob @ [VRelay (next_fn w) c]\<rparr>)
           (w\<lparr>next_fn := Suc (next_fn w)\<rparr>)))"
proof -
  from ok(2) obtain s where s: "ev = VEvt s" "s < length (objs w)" by (rule instanceof_EvtE)
  with ok(1) have sc: "s \<noteq> c" by simp
  let ?w0 = "w\<lparr>next_fn := Suc (next_fn w)\<rparr>"
  let ?h = "VRelay (next_fn w) c"
  let ?w1 = "upd s (\<lambda>ob. ob\<lparr>priorityHandlers := priorityHandlers ob @ [?h]\<rparr>) ?w0"
  have a: "addPriorityHandler s [evKey, ?h] ?w0 = ?w1"
    using ok(4) fresh s by (intro addPriorityHandler_push) simp_all
  have o1: "objs ?w1 ! c = objs w ! c" using sc by (simp add: upd_def)
  have "upd c (\<lambda>ob. ob\<lparr>evts := assign VUndefined (evts ob) (length (evts (objs ?w1 ! c))) ev,
                        evtsData := assign None (evtsData ob) (length (evts (objs ?w1 ! c)))
                                       (Some (evKey, ?h))\<rparr>) ?w1
      = upd c (\<lambda>ob. ob\<lparr>evts := evts ob @ [ev], evtsData := evtsData ob @ [Some (evKey, ?h)]\<rparr>) ?w1"
    using len by (intro upd_cong) (simp add: o1 assign_def)
  with src ok nb s a show ?thesis by (simp add: bind_def Let_def)
qed

text \<open>The outcomes of \<open>unbind\<close>.\<close>

lemma unbind_unbound:
  assumes "\<not> (instanceof_Evt w (unbind_source c args w)
              \<and> unbind_source c args w \<in> set (evts (objs w ! c)))"
  shows "unbind c args w = Some (VNull, w)"
  using assms by (auto simp: unbind_def Let_def)

lemma unbind_bound:
  assumes src: "unbind_source c args w = ev"
    and b: "instanceof_Evt w ev" "ev \<in> set (evts (objs w ! c))"
    and i: "i = nat (indexOf (evts (objs w ! c)) ev)" "i < length (evtsData (objs w ! c))"
      "evtsData (objs w ! c) ! i = Some (k, h)"
  shows "unbind c args w =
     (if \<not> (validateKey (objs w ! c) (arg args 0) \<and> validateKey (objs w ! ref ev) k)
      then Some (VNull, w)
      else Some (VEvt c,
        upd c (\<lambda>ob. ob\<lparr>evts := take i (evts ob) @ drop (Suc i) (evts ob),
                         evtsData := take i (evtsData ob) @ drop (Suc i) (evtsData ob)\<rparr>)
          (upd (ref ev) (\<lambda>ob. ob\<lparr>priorityHandlers := remove1 h (priorityHandlers ob)\<rparr>) w)))"
proof (cases "validateKey (objs w ! c) (arg args 0) \<and> validateKey (objs w ! ref ev) k")
  case False
  with src b i show ?thesis by (auto simp: unbind_def Let_def)
next
  case True
  let ?w1 = "upd (ref ev) (\<lambda>ob. ob\<lparr>priorityHandlers := remove1 h (priorityHandlers ob)\<rparr>) w"
  let ?j = "indexOf (evts (objs w ! c)) ev"
  from indexOf_in[OF b(2)] i have j: "0 \<le> ?j" "nat ?j < length (evts (objs w ! c))" by auto
  have r: "removePriorityHandler (ref ev) [k, h] w = ?w1"
    using True by (intro removePriorityHandler_remove1) simp
  have e1: "evts (objs ?w1 ! c) = evts (objs w ! c)"
    "evtsData (objs ?w1 ! c) = evtsData (objs w ! c)"
    by (simp_all add: upd_nth)
  have "upd c (\<lambda>ob. ob\<lparr>evts := splice1 (evts ob) ?j, evtsData := splice1 (evtsData ob) ?j\<rparr>) ?w1
      = upd c (\<lambda>ob. ob\<lparr>evts := take i (evts ob) @ drop (Suc i) (evts ob),
                         evtsData := take i (evtsData ob) @ drop (Suc i) (evtsData ob)\<rparr>) ?w1"
    using j i by (intro upd_cong) (simp add: e1 splice1_nat)
  with src b i True r show ?thesis by (simp add: unbind_def Let_def)
qed

section \<open>Well-formed stores\<close>

lemma recorded_mono:
  assumes "recorded os s h" and "length os \<le> length os'"
    and "\<forall>c < length os. compound (os' ! c) = compound (os ! c)
          \<and> set (zip (evts (os ! c)) (evtsData (os ! c)))
              \<subseteq> set (zip (evts (os' ! c)) (evtsData (os' ! c)))"
  shows "recorded os' s h"
proof (cases h)
  case (VRelay j c)
  with assms(1) obtain k where c: "c < length os" "compound (os ! c)"
    and k: "(VEvt s, Some (k, VRelay j c)) \<in> set (zip (evts (os ! c)) (evtsData (os ! c)))"
    by auto
  from assms(3) c(1) k have "(VEvt s, Some (k, VRelay j c))
      \<in> set (zip (evts (os' ! c)) (evtsData (os' ! c)))" by blast
  moreover from assms(2,3) c have "c < length os'" "compound (os' ! c)" by auto
  ultimately show ?thesis using VRelay by auto
qed (use assms(1) in auto)

lemma binding_ok_mono:
  assumes "binding_ok w c b" "length (objs w) \<le> length (objs w')" "next_fn w \<le> next_fn w'"
  shows "binding_ok w' c b"
  using assms by (induction w c b rule: binding_ok.induct) auto

lemma binding_okE:
  assumes "binding_ok w c b"
  obtains s k j where "b = (VEvt s, Some (k, VRelay j c))" "s < length (objs w)" "s \<noteq> c"
    "j < next_fn w"
  using assms by (induction w c b rule: binding_ok.induct) auto

lemma user_function_recorded: "user_function h \<Longrightarrow> recorded os s h"
  by (cases h) auto

text \<open>An object stays well-formed when its bindings are kept and its handler lists
  only lose elements or gain functions of callers.\<close>

lemma wf_obj_transfer:
  assumes wf: "wf_obj w e" and e: "e < length (objs w)" and sb: "same_bindings w w'"
    and dp: "distinct (priorityHandlers (objs w' ! e))"
    and dh: "distinct (handlers (objs w' ! e))"
    and sp: "\<forall>h \<in> set (priorityHandlers (objs w' ! e)).
               h \<in> set (priorityHandlers (objs w ! e)) \<or> user_function h"
    and sh: "\<forall>h \<in> set (handlers (objs w' ! e)).
               h \<in> set (handlers (objs w ! e)) \<or> user_function h"
  shows "wf_obj w' e"
proof -
  from sb e have f: "compound (objs w' ! e) = compound (objs w ! e)"
    "evts (objs w' ! e) = evts (objs w ! e)" "evtsData (objs w' ! e) = evtsData (objs w ! e)"
    and l: "length (objs w) \<le> length (objs w')" and n: "next_fn w \<le> next_fn w'"
    unfolding same_bindings_def by auto
  have m: "\<forall>c < length (objs w). compound (objs w' ! c) = compound (objs w ! c)
          \<and> set (zip (evts (objs w ! c)) (evtsData (objs w ! c)))
              \<subseteq> set (zip (evts (objs w' ! c)) (evtsData (objs w' ! c)))"
    using sb unfolding same_bindings_def by auto
  have "\<forall>h \<in> set (priorityHandlers (objs w' ! e)). recorded (objs w') e h"
  proof
    fix h assume "h \<in> set (priorityHandlers (objs w' ! e))"
    with sp have "h \<in> set (priorityHandlers (objs w ! e)) \<or> user_function h" by blast
    then show "recorded (objs w') e h"
    proof
      assume "h \<in> set (priorityHandlers (objs w ! e))"
      with wf have "recorded (objs w) e h" unfolding wf_obj_def by blast
      then show ?thesis using l m by (rule recorded_mono)
    qed (rule user_function_recorded)
  qed
  moreover have "\<forall>h \<in> set (handlers (objs w' ! e)). user_function h"
    using sh wf unfolding wf_obj_def by blast
  moreover have "\<forall>b \<in> set (zip (evts (objs w' ! e)) (evtsData (objs w' ! e))). binding_ok w' e b"
    using wf binding_ok_mono[OF _ l n] unfolding wf_obj_def f by blast
  ultimately show ?thesis using wf dp dh unfolding wf_obj_def f by simp
qed

lemma wf_transfer_same:
  assumes wf: "wf w" and sb: "same_bindings w w'" and len: "length (objs w') = length (objs w)"
    and d: "\<forall>e < length (objs w). distinct (priorityHandlers (objs w' ! e))
              \<and> distinct (handlers (objs w' ! e))
              \<and> (\<forall>h \<in> set (priorityHandlers (objs w' ! e)).
                    h \<in> set (priorityHandlers (objs w ! e)) \<or> user_function h)
              \<and> (\<forall>h \<in> set (handlers (objs w' ! e)).
                    h \<in> set (handlers (objs w ! e)) \<or> user_function h)"
  shows "wf w'"
  unfolding wf_def
proof (intro allI impI)
  fix e assume "e < length (objs w')"
  with len have e: "e < length (objs w)" by simp
  with wf have "wf_obj w e" unfolding wf_def by blast
  from wf_obj_transfer[OF this e sb] d e show "wf_obj w' e" by blast
qed

text \<open>Changing the priority list, the normal list or the keys of one object.\<close>

lemma wf_upd_priority:
  assumes wf: "wf w" and d: "distinct ps"
    and s: "\<forall>h \<in> set ps. h \<in> set (priorityHandlers (objs w ! t)) \<or> user_function h"
  shows "wf (upd t (\<lambda>ob. ob\<lparr>priorityHandlers := ps\<rparr>) w)"
proof (rule wf_transfer_same[OF wf])
  show "same_bindings w (upd t (\<lambda>ob. ob\<lparr>priorityHandlers := ps\<rparr>) w)"
    by (simp add: same_bindings_def upd_nth upd_length) (simp add: upd_def)
  show "length (objs (upd t (\<lambda>ob. ob\<lparr>priorityHandlers := ps\<rparr>) w)) = length (objs w)"
    by (rule upd_length)
  show "\<forall>e<length (objs w).
       distinct (priorityHandlers (objs (upd t (\<lambda>ob. ob\<lparr>priorityHandlers := ps\<rparr>) w) ! e)) \<and>
       distinct (handlers (objs (upd t (\<lambda>ob. ob\<lparr>priorityHandlers := ps\<rparr>) w) ! e)) \<and>
       (\<forall>h\<in>set (priorityHandlers (objs (upd t (\<lambda>ob. ob\<lparr>priorityHandlers := ps\<rparr>) w) ! e)).
           h \<in> set (priorityHandlers (objs w ! e)) \<or> user_function h) \<and>
       (\<forall>h\<in>set (handlers (objs (upd t (\<lambda>ob. ob\<lparr>priorityHandlers := ps\<rparr>) w) ! e)).
           h \<in> set (handlers (objs w ! e)) \<or> user_function h)"
    using wf d s unfolding wf_def wf_obj_def by (auto simp: upd_nth)
qed

lemma wf_upd_handlers:
  assumes wf: "wf w" and d: "distinct hs"
    and s: "\<forall>h \<in> set hs. h \<in> set (handlers (objs w ! t)) \<or> user_function h"
  shows "wf (upd t (\<lambda>ob. ob\<lparr>handlers := hs\<rparr>) w)"
proof (rule wf_transfer_same[OF wf])
  show "same_bindings w (upd t (\<lambda>ob. ob\<lparr>handlers := hs\<rparr>) w)"
    by (simp add: same_bindings_def upd_nth upd_length) (simp add: upd_def)
  show "length (objs (upd t (\<lambda>ob. ob\<lparr>handlers := hs\<rparr>) w)) = length (objs w)"
    by (rule upd_length)
  show "\<forall>e<length (objs w).
       distinct (priorityHandlers (objs (upd t (\<lambda>ob. ob\<lparr>handlers := hs\<rparr>) w) ! e)) \<and>
       distinct (handlers (objs (upd t (\<lambda>ob. ob\<lparr>handlers := hs\<rparr>) w) ! e)) \<and>
       (\<forall>h\<in>set (priorityHandlers (objs (upd t (\<lambda>ob. ob\<lparr>handlers := hs\<rparr>) w) ! e)).
           h \<in> set (priorityHandlers (objs w ! e)) \<or> user_function h) \<and>
       (\<forall>h\<in>set (handlers (objs (upd t (\<lambda>ob. ob\<lparr>handlers := hs\<rparr>) w) ! e)).
           h \<in> set (handlers (objs w ! e)) \<or> user_function h)"
    using wf d s unfolding wf_def wf_obj_def by (auto simp: upd_nth)
qed

lemma wf_same_lists:
  assumes wf: "wf w" and len: "length (objs w') = length (objs w)"
    and n: "next_fn w \<le> next_fn w'"
    and f: "\<forall>e < length (objs w).
              compound (objs w' ! e) = compound (objs w ! e)
              \<and> evts (objs w' ! e) = evts (objs w ! e)
              \<and> evtsData (objs w' ! e) = evtsData (objs w ! e)
              \<and> priorityHandlers (objs w' ! e) = priorityHandlers (objs w ! e)
              \<and> handlers (objs w' ! e) = handlers (objs w ! e)"
  shows "wf w'"
proof (rule wf_transfer_same[OF wf _ len])
  show "same_bindings w w'" using len n f unfolding same_bindings_def by simp
  show "\<forall>e<length (objs w).
       distinct (priorityHandlers (objs w' ! e)) \<and> distinct (handlers (objs w' ! e)) \<and>
       (\<forall>h\<in>set (priorityHandlers (objs w' ! e)).
           h \<in> set (priorityHandlers (objs w ! e)) \<or> user_function h) \<and>
       (\<forall>h\<in>set (handlers (objs w' ! e)). h \<in> set (handlers (objs w ! e)) \<or> user_function h)"
    using wf f unfolding wf_def wf_obj_def by simp
qed

section \<open>The handler operations keep stores well-formed\<close>

lemma splice1_subset: "set (splice1 xs i) \<subseteq> set xs"
  unfolding splice1_def Let_def
  using set_take_subset[of _ xs] set_drop_subset[of _ xs] by auto

lemma distinct_take_drop: "distinct xs \<Longrightarrow> i \<le> j \<Longrightarrow> distinct (take i xs @ drop j xs)"
proof -
  assume d: "distinct xs" and ij: "i \<le> j"
  have "set (take i xs) \<inter> set (drop j xs) \<subseteq> set (take i xs) \<inter> set (drop i xs)"
    using set_drop_subset_set_drop[OF ij, of xs] by auto
  moreover have "set (take i xs) \<inter> set (drop i xs) = {}"
    using d by (metis append_take_drop_id distinct_append)
  ultimately show ?thesis using d by simp
qed

lemma splice1_distinct: "distinct xs \<Longrightarrow> distinct (splice1 xs i)"
  unfolding splice1_def Let_def by (rule distinct_take_drop) auto

lemma addPriorityLoop_distinct: "distinct ps \<Longrightarrow> distinct (addPriorityLoop hs ps)"
  by (induction hs arbitrary: ps) auto

lemma addPriorityLoop_subset:
  "set (addPriorityLoop hs ps) \<subseteq> set ps \<union> {h \<in> set hs. typeof_function h}"
proof (induction hs arbitrary: ps)
  case Nil
  then show ?case by simp
next
  case (Cons h hs)
  from Cons.IH[of "if typeof_function h \<and> h \<notin> set ps then ps @ [h] else ps"]
  show ?case by (auto split: if_splits)
qed

lemma removePriorityLoop_distinct: "distinct ps \<Longrightarrow> distinct (removePriorityLoop hs ps)"
  by (induction hs arbitrary: ps) (auto simp: splice1_distinct)

lemma removePriorityLoop_subset: "set (removePriorityLoop hs ps) \<subseteq> set ps"
proof (induction hs arbitrary: ps)
  case Nil
  then show ?case by simp
next
  case (Cons h hs)
  from Cons.IH[of "if typeof_function h \<and> h \<notin> set ps then splice1 ps (indexOf ps h) else ps"]
    splice1_subset[of ps "indexOf ps h"]
  show ?case by (auto split: if_splits)
qed

lemma user_functionI: "typeof_function h \<Longrightarrow> user_val h \<Longrightarrow> user_function h"
  by (cases h) auto

lemma arg_user: "list_all user_val a \<Longrightarrow> user_val (arg a i)"
  by (simp add: arg_def list_all_length)

lemma rest_handlers_user: "list_all user_val a \<Longrightarrow> list_all user_val (rest_handlers a)"
  by (cases a) (auto simp: rest_handlers_def arg_def)

text \<open>The handler operations as updates of one list.\<close>

lemma addPriorityHandler_cases:
  "addPriorityHandler t a w = w \<or>
   (typeof_function (if length a = 1 then arg a 0 else arg a 1)
    \<and> (if length a = 1 then arg a 0 else arg a 1) \<notin> set (priorityHandlers (objs w ! t))
    \<and> addPriorityHandler t a w =
        upd t (\<lambda>ob. ob\<lparr>priorityHandlers := priorityHandlers (objs w ! t)
                          @ [if length a = 1 then arg a 0 else arg a 1]\<rparr>) w)"
  by (auto simp: addPriorityHandler_def Let_def upd_def)

lemma addPriorityHandlers_cases:
  "addPriorityHandlers t a w = w \<or>
   addPriorityHandlers t a w =
     upd t (\<lambda>ob. ob\<lparr>priorityHandlers :=
       addPriorityLoop (rest_handlers a) (priorityHandlers (objs w ! t))\<rparr>) w"
  by (auto simp: addPriorityHandlers_def upd_def)

lemma removePriorityHandler_cases:
  "removePriorityHandler t a w = w \<or>
   removePriorityHandler t a w =
     upd t (\<lambda>ob. ob\<lparr>priorityHandlers :=
       splice1 (priorityHandlers (objs w ! t))
         (indexOf (priorityHandlers (objs w ! t)) (if length a = 1 then arg a 0 else arg a 1))\<rparr>) w"
  by (auto simp: removePriorityHandler_def Let_def upd_def)

lemma removePriorityHandlers_cases:
  "removePriorityHandlers t a w = w \<or>
   removePriorityHandlers t a w =
     upd t (\<lambda>ob. ob\<lparr>priorityHandlers :=
       removePriorityLoop (rest_handlers a) (priorityHandlers (objs w ! t))\<rparr>) w"
  by (auto simp: removePriorityHandlers_def upd_def)

lemma clearPriorityHandlers_cases:
  "clearPriorityHandlers t k w = w \<or>
   clearPriorityHandlers t k w
     = upd t (\<lambda>ob. ob\<lparr>priorityHandlers := []\<rparr>)
         (w\<lparr>detached := detached w @ [(t, True, priorityHandlers (objs w ! t))]\<rparr>)"
  by (auto simp: clearPriorityHandlers_def)

lemma wf_detached: "wf (w\<lparr>detached := d\<rparr>) = wf w"
proof
  assume "wf (w\<lparr>detached := d\<rparr>)"
  then show "wf w" by (rule wf_same_lists) simp_all
next
  assume "wf w"
  then show "wf (w\<lparr>detached := d\<rparr>)" by (rule wf_same_lists) simp_all
qed

lemma addHandler_cases:
  "addHandler t h w = w \<or>
   (typeof_function h \<and> h \<notin> set (handlers (objs w ! t))
    \<and> addHandler t h w = upd t (\<lambda>ob. ob\<lparr>handlers := handlers (objs w ! t) @ [h]\<rparr>) w)"
  by (auto simp: addHandler_def upd_def)

lemma removeHandler_cases:
  "removeHandler t h w = w \<or>
   removeHandler t h w =
     upd t (\<lambda>ob. ob\<lparr>handlers :=
       splice1 (handlers (objs w ! t)) (indexOf (handlers (objs w ! t)) h)\<rparr>) w"
  by (auto simp: removeHandler_def upd_def)

lemma wf_distinct:
  "wf w \<Longrightarrow> t < length (objs w) \<Longrightarrow>
   distinct (priorityHandlers (objs w ! t)) \<and> distinct (handlers (objs w ! t))"
  unfolding wf_def wf_obj_def by blast

lemma upd_beyond: "\<not> t < length (objs w) \<Longrightarrow> upd t f w = w"
  by (simp add: upd_def list_update_beyond)

lemma addPriorityHandler_wf:
  assumes wf: "wf w" and a: "list_all user_val a"
  shows "wf (addPriorityHandler t a w)"
proof (cases "t < length (objs w)")
  case False
  then show ?thesis using wf addPriorityHandler_cases[of t a w] by (auto simp: upd_beyond)
next
  case True
  let ?h = "if length a = 1 then arg a 0 else arg a 1"
  have u: "user_val ?h" using a by (simp add: arg_user)
  from addPriorityHandler_cases[of t a w] show ?thesis
  proof
    assume "addPriorityHandler t a w = w"
    with wf show ?thesis by simp
  next
    assume c: "typeof_function ?h \<and> ?h \<notin> set (priorityHandlers (objs w ! t))
      \<and> addPriorityHandler t a w =
          upd t (\<lambda>ob. ob\<lparr>priorityHandlers := priorityHandlers (objs w ! t) @ [?h]\<rparr>) w"
    then have "user_function ?h" using u user_functionI by blast
    moreover have "distinct (priorityHandlers (objs w ! t) @ [?h])"
      using c wf_distinct[OF wf True] by simp
    ultimately have "wf (upd t (\<lambda>ob. ob\<lparr>priorityHandlers := priorityHandlers (objs w ! t) @ [?h]\<rparr>) w)"
      by (intro wf_upd_priority[OF wf]) auto
    with c show ?thesis by simp
  qed
qed

lemma addPriorityHandlers_wf:
  assumes wf: "wf w" and a: "list_all user_val a"
  shows "wf (addPriorityHandlers t a w)"
proof (cases "t < length (objs w)")
  case False
  then show ?thesis using wf addPriorityHandlers_cases[of t a w] by (auto simp: upd_beyond)
next
  case True
  let ?ps = "addPriorityLoop (rest_handlers a) (priorityHandlers (objs w ! t))"
  have "distinct ?ps" using wf_distinct[OF wf True] by (simp add: addPriorityLoop_distinct)
  moreover have "\<forall>h \<in> set ?ps. h \<in> set (priorityHandlers (objs w ! t)) \<or> user_function h"
  proof
    fix h assume "h \<in> set ?ps"
    with addPriorityLoop_subset[of "rest_handlers a" "priorityHandlers (objs w ! t)"]
    have "h \<in> set (priorityHandlers (objs w ! t)) \<or> (h \<in> set (rest_handlers a) \<and> typeof_function h)"
      by auto
    moreover have "list_all user_val (rest_handlers a)" using a by (rule rest_handlers_user)
    ultimately show "h \<in> set (priorityHandlers (objs w ! t)) \<or> user_function h"
      using user_functionI by (auto simp: list_all_iff)
  qed
  ultimately have "wf (upd t (\<lambda>ob. ob\<lparr>priorityHandlers := ?ps\<rparr>) w)"
    by (rule wf_upd_priority[OF wf])
  with wf addPriorityHandlers_cases[of t a w] show ?thesis by auto
qed

lemma removePriorityHandler_wf:
  assumes wf: "wf w"
  shows "wf (removePriorityHandler t a w)"
proof (cases "t < length (objs w)")
  case False
  then show ?thesis using wf removePriorityHandler_cases[of t a w] by (auto simp: upd_beyond)
next
  case True
  let ?ps = "splice1 (priorityHandlers (objs w ! t))
         (indexOf (priorityHandlers (objs w ! t)) (if length a = 1 then arg a 0 else arg a 1))"
  have "distinct ?ps" using wf_distinct[OF wf True] by (simp add: splice1_distinct)
  moreover have "\<forall>h \<in> set ?ps. h \<in> set (priorityHandlers (objs w ! t)) \<or> user_function h"
    using splice1_subset by fastforce
  ultimately have "wf (upd t (\<lambda>ob. ob\<lparr>priorityHandlers := ?ps\<rparr>) w)"
    by (rule wf_upd_priority[OF wf])
  with wf removePriorityHandler_cases[of t a w] show ?thesis by auto
qed

lemma removePriorityHandlers_wf:
  assumes wf: "wf w"
  shows "wf (removePriorityHandlers t a w)"
proof (cases "t < length (objs w)")
  case False
  then show ?thesis using wf removePriorityHandlers_cases[of t a w] by (auto simp: upd_beyond)
next
  case True
  let ?ps = "removePriorityLoop (rest_handlers a) (priorityHandlers (objs w ! t))"
  have "distinct ?ps" using wf_distinct[OF wf True] by (simp add: removePriorityLoop_distinct)
  moreover have "\<forall>h \<in> set ?ps. h \<in> set (priorityHandlers (objs w ! t)) \<or> user_function h"
    using removePriorityLoop_subset by fastforce
  ultimately have "wf (upd t (\<lambda>ob. ob\<lparr>priorityHandlers := ?ps\<rparr>) w)"
    by (rule wf_upd_priority[OF wf])
  with wf removePriorityHandlers_cases[of t a w] show ?thesis by auto
qed

lemma clearPriorityHandlers_wf:
  assumes wf: "wf w"
  shows "wf (clearPriorityHandlers t k w)"
proof -
  have "wf (upd t (\<lambda>ob. ob\<lparr>priorityHandlers := []\<rparr>)
              (w\<lparr>detached := detached w @ [(t, True, priorityHandlers (objs w ! t))]\<rparr>))"
    by (rule wf_upd_priority) (simp_all add: wf_detached wf)
  with wf clearPriorityHandlers_cases[of t k w] show ?thesis by auto
qed

lemma addHandler_wf:
  assumes wf: "wf w" and u: "user_val h"
  shows "wf (addHandler t h w)"
proof (cases "t < length (objs w)")
  case False
  then show ?thesis using wf addHandler_cases[of t h w] by (auto simp: upd_beyond)
next
  case True
  from addHandler_cases[of t h w] show ?thesis
  proof
    assume "addHandler t h w = w"
    with wf show ?thesis by simp
  next
    assume c: "typeof_function h \<and> h \<notin> set (handlers (objs w ! t))
      \<and> addHandler t h w = upd t (\<lambda>ob. ob\<lparr>handlers := handlers (objs w ! t) @ [h]\<rparr>) w"
    then have "user_function h" using u user_functionI by blast
    moreover have "distinct (handlers (objs w ! t) @ [h])"
      using c wf_distinct[OF wf True] by simp
    ultimately have "wf (upd t (\<lambda>ob. ob\<lparr>handlers := handlers (objs w ! t) @ [h]\<rparr>) w)"
      by (intro wf_upd_handlers[OF wf]) auto
    with c show ?thesis by simp
  qed
qed

lemma addHandlers_wf: "wf w \<Longrightarrow> list_all user_val hs \<Longrightarrow> wf (addHandlers t hs w)"
  by (induction hs arbitrary: w) (simp_all add: addHandler_wf)

lemma removeHandler_wf:
  assumes wf: "wf w"
  shows "wf (removeHandler t h w)"
proof (cases "t < length (objs w)")
  case False
  then show ?thesis using wf removeHandler_cases[of t h w] by (auto simp: upd_beyond)
next
  case True
  let ?hs = "splice1 (handlers (objs w ! t)) (indexOf (handlers (objs w ! t)) h)"
  have "distinct ?hs" using wf_distinct[OF wf True] by (simp add: splice1_distinct)
  moreover have "\<forall>h \<in> set ?hs. h \<in> set (handlers (objs w ! t)) \<or> user_function h"
    using splice1_subset by fastforce
  ultimately have "wf (upd t (\<lambda>ob. ob\<lparr>handlers := ?hs\<rparr>) w)"
    by (rule wf_upd_handlers[OF wf])
  with wf removeHandler_cases[of t h w] show ?thesis by auto
qed

lemma removeHandlers_wf: "wf w \<Longrightarrow> wf (removeHandlers t hs w)"
  by (induction hs arbitrary: w) (simp_all add: removeHandler_wf)

lemma clearHandlers_wf:
  assumes wf: "wf w"
  shows "wf (clearHandlers t w)"
  unfolding clearHandlers_def by (rule wf_upd_handlers) (simp_all add: wf_detached wf)

lemma on_wf: "wf w \<Longrightarrow> list_all user_val hs \<Longrightarrow> wf (on t hs w)"
  by (cases hs) (auto simp: on_def addHandler_wf addHandlers_wf)

section \<open>Locks, calls and constructors keep stores well-formed\<close>

lemma upd_next_fn: "next_fn (upd t f w) = next_fn w"
  by (simp add: upd_def)

lemma lock_wf: assumes wf: "wf w" shows "wf (snd (lock t w))"
  by (rule wf_same_lists[OF wf])
    (auto simp: lock_def Evt_lock_def CompoundEvt_lock_def Let_def upd_nth upd_length
      upd_next_fn)

lemma unlock_wf: assumes wf: "wf w" shows "wf (snd (unlock t k w))"
  by (rule wf_same_lists[OF wf])
    (auto simp: unlock_def Evt_unlock_def CompoundEvt_unlock_def upd_nth upd_length
      upd_next_fn)

lemma wf_append:
  assumes wf: "wf w"
    and ob: "priorityHandlers ob = []" "handlers ob = []" "evts ob = []" "evtsData ob = []"
  shows "wf (w\<lparr>objs := objs w @ [ob]\<rparr>)"
  unfolding wf_def
proof (intro allI impI)
  let ?w' = "w\<lparr>objs := objs w @ [ob]\<rparr>"
  fix e assume "e < length (objs ?w')"
  then have "e < length (objs w) \<or> e = length (objs w)" by auto
  then show "wf_obj ?w' e"
  proof
    assume e: "e < length (objs w)"
    with wf have "wf_obj w e" unfolding wf_def by blast
    then show ?thesis
      by (rule wf_obj_transfer[OF _ e]) (use wf e in \<open>auto simp: same_bindings_def nth_append wf_def wf_obj_def\<close>)
  next
    assume "e = length (objs w)"
    with ob show ?thesis by (simp add: wf_obj_def)
  qed
qed

lemma new_Evt_wf: "wf w \<Longrightarrow> wf (snd (new_Evt n w))"
  unfolding new_Evt_def by (simp add: wf_append)

lemma new_CompoundEvt_wf: "wf w \<Longrightarrow> wf (snd (new_CompoundEvt n w))"
  unfolding new_CompoundEvt_def by (simp add: wf_append)

lemma w_init_wf: "wf w_init"
  by (simp add: wf_def w_init_def)

text \<open>In a well-formed store the next relay is in no priority list.\<close>

lemma wf_relay_below:
  assumes wf: "wf w" and s: "s < length (objs w)"
    and h: "VRelay j c \<in> set (priorityHandlers (objs w ! s))"
  shows "j < next_fn w \<and> c < length (objs w) \<and> compound (objs w ! c) \<and> c \<noteq> s"
proof -
  from wf s h have r: "recorded (objs w) s (VRelay j c)" unfolding wf_def wf_obj_def by blast
  then obtain k where c: "c < length (objs w)" "compound (objs w ! c)"
    and z: "(VEvt s, Some (k, VRelay j c)) \<in> set (zip (evts (objs w ! c)) (evtsData (objs w ! c)))"
    by auto
  from wf c(1) z have "binding_ok w c (VEvt s, Some (k, VRelay j c))"
    unfolding wf_def wf_obj_def by blast
  with c show ?thesis by auto
qed

lemma wf_fresh:
  "wf w \<Longrightarrow> s < length (objs w) \<Longrightarrow> VRelay (next_fn w) c \<notin> set (priorityHandlers (objs w ! s))"
  using wf_relay_below by blast

lemma wf_handlers_ok: "wf w \<Longrightarrow> handlers_ok (objs w)"
  unfolding handlers_ok_def
proof (intro ballI)
  fix ob h
  assume wf: "wf w" and ob: "ob \<in> set (objs w)"
    and h: "h \<in> set (priorityHandlers ob) \<union> set (handlers ob)"
  from ob obtain e where e: "e < length (objs w)" "ob = objs w ! e"
    by (auto simp: in_set_conv_nth)
  from h show "callable (objs w) h"
  proof
    assume hp: "h \<in> set (priorityHandlers ob)"
    with wf e have "recorded (objs w) e h" unfolding wf_def wf_obj_def by blast
    then show ?thesis by (cases h) auto
  next
    assume "h \<in> set (handlers ob)"
    with wf e have "user_function h" unfolding wf_def wf_obj_def by blast
    then show ?thesis by (cases h) auto
  qed
qed

section \<open>bind keeps stores well-formed\<close>

lemma zip_splice:
  "length xs = length ys \<Longrightarrow>
   zip (take i xs @ drop (Suc i) xs) (take i ys @ drop (Suc i) ys) =
   take i (zip xs ys) @ drop (Suc i) (zip xs ys)"
  by (simp add: zip_append take_zip drop_zip)

lemma in_splice:
  assumes "x \<in> set zs" and "i < length zs \<Longrightarrow> x \<noteq> zs ! i"
  shows "x \<in> set (take i zs @ drop (Suc i) zs)"
proof (cases "i < length zs")
  case True
  from id_take_nth_drop[OF True] have "set zs = set (take i zs) \<union> {zs ! i} \<union> set (drop (Suc i) zs)"
    by (metis Un_insert_right append_Cons append_Nil list.simps(15) set_append sup_bot.right_neutral)
  with assms True show ?thesis by auto
next
  case False
  with assms(1) show ?thesis by simp
qed

lemma zip_fst_unique:
  assumes "distinct xs" "(a, b) \<in> set (zip xs ys)" "i < length xs" "i < length ys" "xs ! i = a"
  shows "b = ys ! i"
proof -
  from assms(2) obtain j where j: "j < length xs" "j < length ys" "xs ! j = a" "ys ! j = b"
    by (auto simp: in_set_zip)
  from nth_eq_iff_index_eq[OF assms(1) j(1) assms(3)] j(3) assms(5) have "j = i" by simp
  with j show ?thesis by simp
qed

lemma wf_objD:
  assumes "wf w" "e < length (objs w)"
  shows "distinct (priorityHandlers (objs w ! e))" "distinct (handlers (objs w ! e))"
    "\<forall>h \<in> set (priorityHandlers (objs w ! e)). recorded (objs w) e h"
    "\<forall>h \<in> set (handlers (objs w ! e)). user_function h"
    "length (evts (objs w ! e)) = length (evtsData (objs w ! e))"
    "distinct (evts (objs w ! e))"
    "\<forall>b \<in> set (zip (evts (objs w ! e)) (evtsData (objs w ! e))). binding_ok w e b"
  using assms unfolding wf_def wf_obj_def by blast+

lemma bind_wf:
  assumes wf: "wf w" and c: "c < length (objs w)" "compound (objs w ! c)"
  shows "wf (snd (bind c a w))"
proof -
  obtain ev evKey where src: "bind_source c a w = (ev, evKey)" by (cases "bind_source c a w")
  show ?thesis
  proof (cases "ev = VEvt c \<or> \<not> instanceof_Evt w ev \<or> \<not> validateKey (objs w ! c) (arg a 0)
         \<or> \<not> validateKey (objs w ! ref ev) evKey")
    case True
    with bind_refused[OF src] wf show ?thesis by simp
  next
    case False
    then have ok: "ev \<noteq> VEvt c" "instanceof_Evt w ev" "validateKey (objs w ! c) (arg a 0)"
      "validateKey (objs w ! ref ev) evKey" by auto
    show ?thesis
    proof (cases "ev \<in> set (evts (objs w ! c))")
      case True
      with bind_bound[OF src ok] wf show ?thesis by simp
    next
      case nb: False
      from ok(2) obtain s where s: "ev = VEvt s" "s < length (objs w)" by (rule instanceof_EvtE)
      with ok(1) have sc: "s \<noteq> c" by simp
      define h where "h = VRelay (next_fn w) c"
      define w' where "w' = upd c (\<lambda>ob. ob\<lparr>evts := evts ob @ [VEvt s],
                       evtsData := evtsData ob @ [Some (evKey, h)]\<rparr>)
        (upd s (\<lambda>ob. ob\<lparr>priorityHandlers := priorityHandlers ob @ [h]\<rparr>)
           (w\<lparr>next_fn := Suc (next_fn w)\<rparr>))"
      have fresh: "h \<notin> set (priorityHandlers (objs w ! s))"
        using wf_fresh[OF wf s(2)] by (simp add: h_def)
      have len: "length (evts (objs w ! c)) = length (evtsData (objs w ! c))"
        using wf_objD(5)[OF wf c(1)] .
      have b: "snd (bind c a w) = w'"
        using bind_new[OF src ok nb _ len] fresh s by (simp add: h_def w'_def)
      have L: "length (objs w') = length (objs w)" by (simp add: w'_def upd_length)
      have N: "next_fn w' = Suc (next_fn w)" by (simp add: w'_def upd_next_fn)
      have O: "\<And>e. objs w' ! e =
          (if e = c then (objs w ! c)\<lparr>evts := evts (objs w ! c) @ [VEvt s],
                              evtsData := evtsData (objs w ! c) @ [Some (evKey, h)]\<rparr>
           else if e = s then (objs w ! s)\<lparr>priorityHandlers := priorityHandlers (objs w ! s) @ [h]\<rparr>
           else objs w ! e)"
        using c s sc by (simp add: w'_def upd_nth upd_length)
      have Z: "\<And>e. zip (evts (objs w' ! e)) (evtsData (objs w' ! e)) =
          (if e = c then zip (evts (objs w ! c)) (evtsData (objs w ! c))
                           @ [(VEvt s, Some (evKey, h))]
           else zip (evts (objs w ! e)) (evtsData (objs w ! e)))"
        using len by (simp add: O)
      have mono: "\<forall>e < length (objs w). compound (objs w' ! e) = compound (objs w ! e)
          \<and> set (zip (evts (objs w ! e)) (evtsData (objs w ! e)))
              \<subseteq> set (zip (evts (objs w' ! e)) (evtsData (objs w' ! e)))"
        unfolding Z by (auto simp: O)
      have rec_old: "recorded (objs w') e h" if "e < length (objs w)"
        "h \<in> set (priorityHandlers (objs w ! e))" for e h
      proof -
        from wf_objD(3)[OF wf that(1)] that(2) have r: "recorded (objs w) e h" by blast
        have "length (objs w) \<le> length (objs w')" by (simp add: L)
        from recorded_mono[OF r this mono] show ?thesis .
      qed
      have rec_new: "recorded (objs w') s h"
      proof -
        have "c < length (objs w')" using c by (simp add: L)
        moreover have "compound (objs w' ! c)" using c by (simp add: O)
        moreover have "(VEvt s, Some (evKey, VRelay (next_fn w) c))
            \<in> set (zip (evts (objs w' ! c)) (evtsData (objs w' ! c)))"
          by (simp add: Z h_def)
        ultimately show ?thesis unfolding h_def by auto
      qed
      have "wf_obj w' e" if e: "e < length (objs w)" for e
      proof -
        note D = wf_objD[OF wf e]
        have 1: "distinct (priorityHandlers (objs w' ! e))"
          using D(1) fresh sc by (auto simp: O)
        have 2: "distinct (handlers (objs w' ! e))" using D(2) by (auto simp: O)
        have 3: "\<forall>h \<in> set (priorityHandlers (objs w' ! e)). recorded (objs w') e h"
          using rec_old[OF e] rec_new by (auto simp: O)
        have 4: "\<forall>h \<in> set (handlers (objs w' ! e)). user_function h"
          using D(4) by (auto simp: O)
        have 5: "length (evts (objs w' ! e)) = length (evtsData (objs w' ! e))"
          using D(5) by (auto simp: O)
        have 6: "distinct (evts (objs w' ! e))" using D(6) nb s by (auto simp: O)
        have 7: "\<forall>b \<in> set (zip (evts (objs w' ! e)) (evtsData (objs w' ! e))). binding_ok w' e b"
        proof
          fix b assume "b \<in> set (zip (evts (objs w' ! e)) (evtsData (objs w' ! e)))"
          then have "b \<in> set (zip (evts (objs w ! e)) (evtsData (objs w ! e)))
              \<or> (e = c \<and> b = (VEvt s, Some (evKey, h)))"
            unfolding Z by (auto split: if_splits)
          then show "binding_ok w' e b"
          proof
            assume "b \<in> set (zip (evts (objs w ! e)) (evtsData (objs w ! e)))"
            with D(7) have "binding_ok w e b" by blast
            then show ?thesis by (rule binding_ok_mono) (simp_all add: L N)
          next
            assume "e = c \<and> b = (VEvt s, Some (evKey, h))"
            then show ?thesis using s sc by (simp add: L N h_def)
          qed
        qed
        from 1 2 3 4 5 6 7 show ?thesis unfolding wf_obj_def by blast
      qed
      then have "wf w'" unfolding wf_def L by blast
      with b show ?thesis by simp
    qed
  qed
qed

section \<open>unbind keeps stores well-formed\<close>

text \<open>In a well-formed store, the record of a bound source.\<close>

lemma wf_bound:
  assumes wf: "wf w" and c: "c < length (objs w)" and b: "ev \<in> set (evts (objs w ! c))"
  obtains s k j where "ev = VEvt s" "s < length (objs w)" "s \<noteq> c" "j < next_fn w"
    "nat (indexOf (evts (objs w ! c)) ev) < length (evtsData (objs w ! c))"
    "evtsData (objs w ! c) ! nat (indexOf (evts (objs w ! c)) ev) = Some (k, VRelay j c)"
    "evts (objs w ! c) ! nat (indexOf (evts (objs w ! c)) ev) = ev"
proof -
  let ?i = "nat (indexOf (evts (objs w ! c)) ev)"
  note D = wf_objD[OF wf c]
  from indexOf_in[OF b] have i: "?i < length (evts (objs w ! c))" "evts (objs w ! c) ! ?i = ev"
    by auto
  with D(5) have i': "?i < length (evtsData (objs w ! c))" by simp
  with i have "(ev, evtsData (objs w ! c) ! ?i) \<in> set (zip (evts (objs w ! c)) (evtsData (objs w ! c)))"
    by (auto simp: in_set_zip)
  with D(7) have "binding_ok w c (ev, evtsData (objs w ! c) ! ?i)" by blast
  then obtain s k j where eq: "(ev, evtsData (objs w ! c) ! ?i) = (VEvt s, Some (k, VRelay j c))"
    and sk: "s < length (objs w)" "s \<noteq> c" "j < next_fn w" by (rule binding_okE)
  from eq have e1: "ev = VEvt s" and e2: "evtsData (objs w ! c) ! ?i = Some (k, VRelay j c)"
    by auto
  show thesis by (rule that[OF e1 sk i' e2 i(2)])
qed

lemma unbind_wf:
  assumes wf: "wf w" and c: "c < length (objs w)" and u: "unbind c a w = Some (r, w')"
  shows "wf w'"
proof (cases "instanceof_Evt w (unbind_source c a w)
              \<and> unbind_source c a w \<in> set (evts (objs w ! c))")
  case False
  with unbind_unbound[of w c a] u wf show ?thesis by simp
next
  case True
  define ev where "ev = unbind_source c a w"
  define i where "i = nat (indexOf (evts (objs w ! c)) ev)"
  from True have b: "instanceof_Evt w ev" "ev \<in> set (evts (objs w ! c))" by (simp_all add: ev_def)
  from wf_bound[OF wf c b(2)] obtain s k j where s: "ev = VEvt s" "s < length (objs w)" "s \<noteq> c"
    and i: "i < length (evtsData (objs w ! c))" "evtsData (objs w ! c) ! i = Some (k, VRelay j c)"
      "evts (objs w ! c) ! i = VEvt s"
    unfolding i_def by metis
  define h where "h = VRelay j c"
  note U = unbind_bound[OF ev_def[symmetric] b i_def i(1) i(2)]
  show ?thesis
  proof (cases "validateKey (objs w ! c) (arg a 0) \<and> validateKey (objs w ! ref ev) k")
    case False
    with U u wf show ?thesis by auto
  next
    case valid: True
    define w1 where "w1 = upd c (\<lambda>ob. ob\<lparr>evts := take i (evts ob) @ drop (Suc i) (evts ob),
                         evtsData := take i (evtsData ob) @ drop (Suc i) (evtsData ob)\<rparr>)
          (upd s (\<lambda>ob. ob\<lparr>priorityHandlers := remove1 h (priorityHandlers ob)\<rparr>) w)"
    from U u valid s have w': "w' = w1" by (simp add: w1_def h_def)
    note Dc = wf_objD[OF wf c]
    have L: "length (objs w1) = length (objs w)" by (simp add: w1_def upd_length)
    have N: "next_fn w1 = next_fn w" by (simp add: w1_def upd_next_fn)
    have O: "\<And>e. objs w1 ! e =
        (if e = c then (objs w ! c)\<lparr>evts := take i (evts (objs w ! c)) @ drop (Suc i) (evts (objs w ! c)),
            evtsData := take i (evtsData (objs w ! c)) @ drop (Suc i) (evtsData (objs w ! c))\<rparr>
         else if e = s then (objs w ! s)\<lparr>priorityHandlers := remove1 h (priorityHandlers (objs w ! s))\<rparr>
         else objs w ! e)"
      using c s by (simp add: w1_def upd_nth upd_length)
    have Z: "\<And>e. zip (evts (objs w1 ! e)) (evtsData (objs w1 ! e)) =
        (if e = c then take i (zip (evts (objs w ! c)) (evtsData (objs w ! c)))
                       @ drop (Suc i) (zip (evts (objs w ! c)) (evtsData (objs w ! c)))
         else zip (evts (objs w ! e)) (evtsData (objs w ! e)))"
      using zip_splice[OF Dc(5)] by (auto simp: O)
    have zi: "zip (evts (objs w ! c)) (evtsData (objs w ! c)) ! i = (VEvt s, Some (k, h))"
      using i Dc(5) by (simp add: h_def)
    have zl: "i < length (zip (evts (objs w ! c)) (evtsData (objs w ! c)))"
      using i Dc(5) by simp
    have P: "\<And>e. set (priorityHandlers (objs w1 ! e)) \<subseteq> set (priorityHandlers (objs w ! e))"
      using set_remove1_subset[of h] by (auto simp: O)
    have "wf_obj w1 e" if e: "e < length (objs w)" for e
    proof -
      note D = wf_objD[OF wf e]
      have 1: "distinct (priorityHandlers (objs w1 ! e))" using D(1) by (auto simp: O)
      have 2: "distinct (handlers (objs w1 ! e))" using D(2) by (auto simp: O)
      have 3: "\<forall>x \<in> set (priorityHandlers (objs w1 ! e)). recorded (objs w1) e x"
      proof
        fix x assume x: "x \<in> set (priorityHandlers (objs w1 ! e))"
        with P have xo: "x \<in> set (priorityHandlers (objs w ! e))" by blast
        with D(3) have r: "recorded (objs w) e x" by blast
        show "recorded (objs w1) e x"
        proof (cases x)
          case (VRelay j' c')
          with r obtain k' where c': "c' < length (objs w)" "compound (objs w ! c')"
            and z: "(VEvt e, Some (k', VRelay j' c'))
                     \<in> set (zip (evts (objs w ! c')) (evtsData (objs w ! c')))"
            by auto
          have "(VEvt e, Some (k', VRelay j' c'))
                  \<in> set (zip (evts (objs w1 ! c')) (evtsData (objs w1 ! c')))"
          proof (cases "c' = c")
            case False
            with z show ?thesis by (simp add: Z)
          next
            case cc: True
            have "(VEvt e, Some (k', VRelay j' c')) \<noteq> (VEvt s, Some (k, h))"
            proof
              assume eq: "(VEvt e, Some (k', VRelay j' c')) = (VEvt s, Some (k, h))"
              then have "e = s" "x = h" using VRelay by simp_all
              with x have "h \<in> set (remove1 h (priorityHandlers (objs w ! s)))"
                using s by (simp add: O)
              moreover have "distinct (priorityHandlers (objs w ! s))"
                using wf_objD(1)[OF wf s(2)] .
              ultimately show False by simp
            qed
            moreover have "(VEvt e, Some (k', VRelay j' c')) \<noteq> (VEvt s, Some (k, h))
                  \<Longrightarrow> (VEvt e, Some (k', VRelay j' c'))
                        \<in> set (zip (evts (objs w1 ! c)) (evtsData (objs w1 ! c)))"
            proof -
              assume ne: "(VEvt e, Some (k', VRelay j' c')) \<noteq> (VEvt s, Some (k, h))"
              have "(VEvt e, Some (k', VRelay j' c')) \<noteq> (VEvt s, Some (k, h))
                   \<or> (VEvt e, Some (k', VRelay j' c')) = (VEvt s, Some (k, h))" by blast
              show ?thesis
              proof (cases "e = s")
                case False
                then have "(VEvt e, Some (k', VRelay j' c'))
                    \<noteq> zip (evts (objs w ! c)) (evtsData (objs w ! c)) ! i"
                  by (simp add: zi)
                from in_splice[OF z[unfolded cc] this[unfolded cc]] show ?thesis
                  by (simp add: Z cc)
              next
                case True
                from zip_fst_unique[OF Dc(6) z[unfolded cc True] _ i(1) i(3)] i Dc(5)
                have "Some (k', VRelay j' c') = Some (k, h)" by (simp add: h_def cc)
                with ne True show ?thesis by simp
              qed
            qed
            ultimately show ?thesis using cc by blast
          qed
          moreover have "compound (objs w1 ! c')" using c' by (auto simp: O)
          ultimately show ?thesis using VRelay c' by (auto simp: L)
        qed (use r in auto)
      qed
      have 4: "\<forall>x \<in> set (handlers (objs w1 ! e)). user_function x" using D(4) by (auto simp: O)
      have 5: "length (evts (objs w1 ! e)) = length (evtsData (objs w1 ! e))"
        using D(5) by (auto simp: O)
      have 6: "distinct (evts (objs w1 ! e))"
        using D(6) distinct_take_drop[of "evts (objs w ! c)" i "Suc i"] by (auto simp: O)
      have 7: "\<forall>y \<in> set (zip (evts (objs w1 ! e)) (evtsData (objs w1 ! e))). binding_ok w1 e y"
      proof
        fix y assume "y \<in> set (zip (evts (objs w1 ! e)) (evtsData (objs w1 ! e)))"
        then have "y \<in> set (zip (evts (objs w ! e)) (evtsData (objs w ! e)))"
          unfolding Z by (auto split: if_splits dest: in_set_takeD in_set_dropD)
        with D(7) have "binding_ok w e y" by blast
        then show "binding_ok w1 e y" by (rule binding_ok_mono) (simp_all add: L N)
      qed
      from 1 2 3 4 5 6 7 show ?thesis unfolding wf_obj_def by blast
    qed
    then have "wf w1" unfolding wf_def L by blast
    with w' show ?thesis by simp
  qed
qed


section \<open>Lists free of duplicates\<close>




















section \<open>Adding a handler twice\<close>




lemma addHandler_other:
  "priorityHandlers (objs (addHandler e h w) ! t) = priorityHandlers (objs w ! t)
   \<and> pending (objs (addHandler e h w) ! t) = pending (objs w ! t)
   \<and> validateKey (objs (addHandler e h w) ! t) k = validateKey (objs w ! t) k
   \<and> length (objs (addHandler e h w)) = length (objs w)"
  by (simp add: addHandler_def upd_nth upd_length validateKey_def CompoundEvt_validateKey_def
      Evt_validateKey_def)

lemma idle_cong: "map pending os' = map pending os \<Longrightarrow> idle os' = idle os"
proof -
  assume "map pending os' = map pending os"
  then have "filter (\<lambda>b. \<not> b) (map pending os') = filter (\<lambda>b. \<not> b) (map pending os)" by simp
  then have "length (filter ((\<lambda>b. \<not> b) \<circ> pending) os') = length (filter ((\<lambda>b. \<not> b) \<circ> pending) os)"
    unfolding filter_map by (metis length_map)
  then show ?thesis by (simp add: idle_def comp_def)
qed

lemma addHandler_idle: "idle (objs (addHandler e h w)) = idle (objs w)"
  by (rule idle_cong) (simp add: list_eq_iff_nth_eq addHandler_other)



section \<open>Two example stores\<close>

lemma w_pair_objs:
  "objs w_pair =
     [\<lparr>name = ''compound'', priorityHandlers = [], handlers = [], Evt_key = VNull,
       pending = False, compound = True, CompoundEvt_key = VUndefined, evts = [], evtsData = []\<rparr>,
      \<lparr>name = ''evt'', priorityHandlers = [], handlers = [], Evt_key = VNull,
       pending = False, compound = False, CompoundEvt_key = VUndefined, evts = [], evtsData = []\<rparr>]"
  by (simp add: w_pair_def new_Evt_def new_CompoundEvt_def w_init_def)

lemma w_pair_rest:
  "next_fn w_pair = 0 \<and> next_sym w_pair = 0 \<and> trace w_pair = [] \<and> reads w_pair = 0
   \<and> now w_pair = (\<lambda>k. 1000 + int k)"
  by (simp add: w_pair_def new_Evt_def new_CompoundEvt_def w_init_def)

lemma w_pair_wf: "wf w_pair"
  unfolding w_pair_def by (intro new_Evt_wf new_CompoundEvt_wf w_init_wf)

lemma w_pair_source: "bind_source 0 [VEvt 1] w_pair = (VEvt 1, VUndefined)"
  by (simp add: bind_source_def locked_def arg_def w_pair_objs)

lemma w_bound_objs:
  "objs w_bound =
     [\<lparr>name = ''compound'', priorityHandlers = [], handlers = [], Evt_key = VNull,
       pending = False, compound = True, CompoundEvt_key = VUndefined, evts = [VEvt 1],
       evtsData = [Some (VUndefined, VRelay 0 0)]\<rparr>,
      \<lparr>name = ''evt'', priorityHandlers = [VRelay 0 0], handlers = [], Evt_key = VNull,
       pending = False, compound = False, CompoundEvt_key = VUndefined, evts = [], evtsData = []\<rparr>]"
  by (simp add: w_bound_def bind_def w_pair_source[unfolded One_nat_def] w_pair_objs
      w_pair_rest Let_def
      validateKey_def Evt_validateKey_def CompoundEvt_validateKey_def addPriorityHandler_def
      arg_def upd_def assign_def)

lemma w_bound_rest:
  "next_fn w_bound = 1 \<and> next_sym w_bound = 0 \<and> trace w_bound = [] \<and> reads w_bound = 0
   \<and> now w_bound = (\<lambda>k. 1000 + int k)"
  by (simp add: w_bound_def bind_def w_pair_source[unfolded One_nat_def] w_pair_objs
      w_pair_rest Let_def
      validateKey_def Evt_validateKey_def CompoundEvt_validateKey_def addPriorityHandler_def
      arg_def upd_def assign_def)

lemma w_bound_wf: "wf w_bound"
  unfolding w_bound_def by (rule bind_wf[OF w_pair_wf]) (simp_all add: w_pair_objs)

section \<open>What bind and unbind change in the bindings\<close>

lemma wf_aligned:
  assumes wf: "wf w" and c: "c < length (objs w)"
  shows "aligned w c"
proof -
  note D = wf_objD[OF wf c]
  have "\<exists>k. (VEvt s, Some (k, VRelay j c)) \<in> set (bindings w c)"
    if "s < length (objs w)" "VRelay j c \<in> set (priorityHandlers (objs w ! s))" for s j
  proof -
    from wf_objD(3)[OF wf that(1)] that(2) have "recorded (objs w) s (VRelay j c)" by blast
    then show ?thesis by (auto simp: bindings_def)
  qed
  with D(5,6,7) show ?thesis unfolding aligned_def bindings_def by blast
qed

lemma unbind_returns:
  assumes wf: "wf w" and c: "c < length (objs w)"
  shows "\<exists>r w'. unbind c a w = Some (r, w')"
proof (cases "instanceof_Evt w (unbind_source c a w)
              \<and> unbind_source c a w \<in> set (evts (objs w ! c))")
  case False
  with unbind_unbound[of w c a] show ?thesis by blast
next
  case True
  then have b: "instanceof_Evt w (unbind_source c a w)"
    "unbind_source c a w \<in> set (evts (objs w ! c))" by auto
  from wf_bound[OF wf c b(2)] obtain k j where
    "nat (indexOf (evts (objs w ! c)) (unbind_source c a w)) < length (evtsData (objs w ! c))"
    "evtsData (objs w ! c) ! nat (indexOf (evts (objs w ! c)) (unbind_source c a w))
       = Some (k, VRelay j c)"
    by metis
  from unbind_bound[OF refl b refl this] show ?thesis by (auto split: if_splits)
qed

text \<open>What a new binding adds.\<close>

lemma bind_new_delta:
  assumes wf: "wf w" and c: "c < length (objs w)" and src: "bind_source c args w = (ev, evKey)"
    and ok: "ev \<noteq> VEvt c" "instanceof_Evt w ev" "validateKey (objs w ! c) (arg args 0)"
      "validateKey (objs w ! ref ev) evKey"
    and nb: "ev \<notin> set (evts (objs w ! c))"
  shows "bindings (snd (bind c args w)) c
           = bindings w c @ [(ev, Some (evKey, VRelay (next_fn w) c))]"
    and "priorityHandlers (objs (snd (bind c args w)) ! ref ev)
           = priorityHandlers (objs w ! ref ev) @ [VRelay (next_fn w) c]"
    and "length (objs (snd (bind c args w))) = length (objs w)"
    and "\<forall>e. e \<noteq> c \<and> e \<noteq> ref ev \<longrightarrow> objs (snd (bind c args w)) ! e = objs w ! e"
    and "objs (snd (bind c args w)) ! c =
           (objs w ! c)\<lparr>evts := evts (objs w ! c) @ [ev],
              evtsData := evtsData (objs w ! c) @ [Some (evKey, VRelay (next_fn w) c)]\<rparr>"
    and "objs (snd (bind c args w)) ! ref ev =
           (objs w ! ref ev)\<lparr>priorityHandlers :=
              priorityHandlers (objs w ! ref ev) @ [VRelay (next_fn w) c]\<rparr>"
    and "fst (bind c args w) = VEvt c"
proof -
  from ok(2) obtain s where s: "ev = VEvt s" "s < length (objs w)" by (rule instanceof_EvtE)
  with ok(1) have sc: "s \<noteq> c" by simp
  have fresh: "VRelay (next_fn w) c \<notin> set (priorityHandlers (objs w ! ref ev))"
    using wf_fresh[OF wf s(2)] s by simp
  note len = wf_objD(5)[OF wf c]
  note B = bind_new[OF src ok nb fresh len]
  show "bindings (snd (bind c args w)) c
           = bindings w c @ [(ev, Some (evKey, VRelay (next_fn w) c))]"
    using c s sc len by (simp add: B bindings_def upd_nth upd_length)
  show "priorityHandlers (objs (snd (bind c args w)) ! ref ev)
           = priorityHandlers (objs w ! ref ev) @ [VRelay (next_fn w) c]"
    using c s sc by (simp add: B upd_nth upd_length)
  show "length (objs (snd (bind c args w))) = length (objs w)"
    by (simp add: B upd_length)
  show "\<forall>e. e \<noteq> c \<and> e \<noteq> ref ev \<longrightarrow> objs (snd (bind c args w)) ! e = objs w ! e"
    by (simp add: B upd_nth)
  show "objs (snd (bind c args w)) ! c =
           (objs w ! c)\<lparr>evts := evts (objs w ! c) @ [ev],
              evtsData := evtsData (objs w ! c) @ [Some (evKey, VRelay (next_fn w) c)]\<rparr>"
    using c s sc by (simp add: B upd_nth upd_length)
  show "objs (snd (bind c args w)) ! ref ev =
           (objs w ! ref ev)\<lparr>priorityHandlers :=
              priorityHandlers (objs w ! ref ev) @ [VRelay (next_fn w) c]\<rparr>"
    using c s sc by (simp add: B upd_nth upd_length)
  show "fst (bind c args w) = VEvt c" by (simp add: B)
qed

lemma bind_unchanged_or_new:
  assumes src: "bind_source c args w = (ev, evKey)"
  shows "bind c args w = (VNull, w) \<or> bind c args w = (VEvt c, w)
     \<or> (ev \<noteq> VEvt c \<and> instanceof_Evt w ev \<and> validateKey (objs w ! c) (arg args 0)
          \<and> validateKey (objs w ! ref ev) evKey \<and> ev \<notin> set (evts (objs w ! c)))"
  using bind_refused[OF src] bind_bound[OF src] by blast

text \<open>What a successful \<open>unbind\<close> removes.\<close>

lemma unbind_delta:
  assumes wf: "wf w" and c: "c < length (objs w)"
    and b: "unbind_source c args w \<in> set (evts (objs w ! c))"
  obtains s k j where
    "unbind_source c args w = VEvt s" "s < length (objs w)" "s \<noteq> c"
    "nat (indexOf (evts (objs w ! c)) (VEvt s)) < length (bindings w c)"
    "bindings w c ! nat (indexOf (evts (objs w ! c)) (VEvt s)) = (VEvt s, Some (k, VRelay j c))"
    "\<not> (validateKey (objs w ! c) (arg args 0) \<and> validateKey (objs w ! s) k)
       \<Longrightarrow> unbind c args w = Some (VNull, w)"
    "validateKey (objs w ! c) (arg args 0) \<and> validateKey (objs w ! s) k \<Longrightarrow>
       unbind c args w = Some (VEvt c,
         upd c (\<lambda>ob. ob\<lparr>evts := take (nat (indexOf (evts (objs w ! c)) (VEvt s))) (evts ob)
                               @ drop (Suc (nat (indexOf (evts (objs w ! c)) (VEvt s)))) (evts ob),
                evtsData := take (nat (indexOf (evts (objs w ! c)) (VEvt s))) (evtsData ob)
                   @ drop (Suc (nat (indexOf (evts (objs w ! c)) (VEvt s)))) (evtsData ob)\<rparr>)
           (upd s (\<lambda>ob. ob\<lparr>priorityHandlers := remove1 (VRelay j c) (priorityHandlers ob)\<rparr>) w))"
proof -
  define ev where "ev = unbind_source c args w"
  define i where "i = nat (indexOf (evts (objs w ! c)) ev)"
  from wf_bound[OF wf c b[folded ev_def]] obtain s k j where
    s: "ev = VEvt s" "s < length (objs w)" "s \<noteq> c"
    and i: "i < length (evtsData (objs w ! c))" "evtsData (objs w ! c) ! i = Some (k, VRelay j c)"
      "evts (objs w ! c) ! i = ev"
    unfolding i_def by metis
  have inst: "instanceof_Evt w ev" using s by simp
  note U = unbind_bound[OF ev_def[symmetric] inst b[folded ev_def] i_def i(1,2)]
  note len = wf_objD(5)[OF wf c]
  have 1: "i < length (bindings w c)" using i len by (simp add: bindings_def)
  have 2: "bindings w c ! i = (VEvt s, Some (k, VRelay j c))"
    using i len s by (simp add: bindings_def)
  show thesis
    by (rule that[OF s(1)[unfolded ev_def] s(2,3) 1[unfolded i_def s(1)] 2[unfolded i_def s(1)]])
      (use U s in \<open>simp_all add: i_def\<close>)
qed

section \<open>The bindings stay aligned\<close>

lemma w_bound_unbind_source: "unbind_source 0 [VEvt 1] w_bound = VEvt 1"
  by (simp add: unbind_source_def locked_def arg_def w_bound_objs)

text \<open>
  C10. In a well-formed store, \<open>bind\<close> and \<open>unbind\<close> on a compound \<open>c\<close> return,
  leave the store well-formed, and so leave the two arrays of every compound
  aligned. \<open>bind\<close> leaves the bindings of \<open>c\<close> as they are or adds at the end the
  source with the key presented and the relay that it has just put at the end of
  that source's priority list. \<open>unbind\<close> leaves the bindings as they are or takes
  out the one pair at the index of its source, and the handler it removes from the
  source's priority list is the handler of that pair.
\<close>

theorem bindings_stay_aligned:
  assumes "wf w" and "c < length (objs w)" and "compound (objs w ! c)"
  shows "wf (snd (bind c args w))
     \<and> (\<forall>c' < length (objs (snd (bind c args w))). aligned (snd (bind c args w)) c')
     \<and> (bindings (snd (bind c args w)) c = bindings w c
        \<or> bindings (snd (bind c args w)) c
             = bindings w c @ [(fst (bind_source c args w),
                                Some (snd (bind_source c args w), VRelay (next_fn w) c))]
          \<and> priorityHandlers (objs (snd (bind c args w)) ! ref (fst (bind_source c args w)))
             = priorityHandlers (objs w ! ref (fst (bind_source c args w)))
                 @ [VRelay (next_fn w) c])
     \<and> (\<exists>r w'. unbind c args w = Some (r, w') \<and> wf w'
          \<and> (\<forall>c' < length (objs w'). aligned w' c')
          \<and> (bindings w' c = bindings w c
             \<or> (\<exists>i k h. i < length (bindings w c)
                  \<and> bindings w c ! i = (unbind_source c args w, Some (k, h))
                  \<and> bindings w' c = take i (bindings w c) @ drop (Suc i) (bindings w c)
                  \<and> priorityHandlers (objs w' ! ref (unbind_source c args w))
                      = remove1 h (priorityHandlers (objs w ! ref (unbind_source c args w))))))"
proof -
  have wb: "wf (snd (bind c args w))" using assms by (rule bind_wf)
  have ab: "\<forall>c' < length (objs (snd (bind c args w))). aligned (snd (bind c args w)) c'"
    using wf_aligned[OF wb] by blast
  obtain ev evKey where src: "bind_source c args w = (ev, evKey)"
    by (cases "bind_source c args w")
  have db: "bindings (snd (bind c args w)) c = bindings w c
        \<or> bindings (snd (bind c args w)) c
             = bindings w c @ [(fst (bind_source c args w),
                                Some (snd (bind_source c args w), VRelay (next_fn w) c))]
          \<and> priorityHandlers (objs (snd (bind c args w)) ! ref (fst (bind_source c args w)))
             = priorityHandlers (objs w ! ref (fst (bind_source c args w)))
                 @ [VRelay (next_fn w) c]"
  proof -
    from bind_unchanged_or_new[OF src]
    consider "snd (bind c args w) = w"
      | "ev \<noteq> VEvt c" "instanceof_Evt w ev" "validateKey (objs w ! c) (arg args 0)"
        "validateKey (objs w ! ref ev) evKey" "ev \<notin> set (evts (objs w ! c))"
      by auto
    then show ?thesis
    proof cases
      case 1
      then show ?thesis by simp
    next
      case 2
      from bind_new_delta(1,2)[OF assms(1,2) src 2] show ?thesis by (simp add: src)
    qed
  qed
  from unbind_returns[OF assms(1,2)] obtain r w' where u: "unbind c args w = Some (r, w')"
    by blast
  have wu: "wf w'" using unbind_wf[OF assms(1,2) u] .
  have au: "\<forall>c' < length (objs w'). aligned w' c'" using wf_aligned[OF wu] by blast
  have du: "bindings w' c = bindings w c
             \<or> (\<exists>i k h. i < length (bindings w c)
                  \<and> bindings w c ! i = (unbind_source c args w, Some (k, h))
                  \<and> bindings w' c = take i (bindings w c) @ drop (Suc i) (bindings w c)
                  \<and> priorityHandlers (objs w' ! ref (unbind_source c args w))
                      = remove1 h (priorityHandlers (objs w ! ref (unbind_source c args w))))"
  proof (cases "instanceof_Evt w (unbind_source c args w)
              \<and> unbind_source c args w \<in> set (evts (objs w ! c))")
    case False
    with unbind_unbound[of w c args] u show ?thesis by simp
  next
    case True
    then have b: "unbind_source c args w \<in> set (evts (objs w ! c))" by simp
    show ?thesis
    proof (rule unbind_delta[OF assms(1,2) b])
      fix s k j
      assume s: "unbind_source c args w = VEvt s" "s < length (objs w)" "s \<noteq> c"
      and i: "nat (indexOf (evts (objs w ! c)) (VEvt s)) < length (bindings w c)"
        "bindings w c ! nat (indexOf (evts (objs w ! c)) (VEvt s)) = (VEvt s, Some (k, VRelay j c))"
      and inv: "\<not> (validateKey (objs w ! c) (arg args 0) \<and> validateKey (objs w ! s) k)
                 \<Longrightarrow> unbind c args w = Some (VNull, w)"
      and val: "validateKey (objs w ! c) (arg args 0) \<and> validateKey (objs w ! s) k \<Longrightarrow>
       unbind c args w = Some (VEvt c,
         upd c (\<lambda>ob. ob\<lparr>evts := take (nat (indexOf (evts (objs w ! c)) (VEvt s))) (evts ob)
                               @ drop (Suc (nat (indexOf (evts (objs w ! c)) (VEvt s)))) (evts ob),
                evtsData := take (nat (indexOf (evts (objs w ! c)) (VEvt s))) (evtsData ob)
                   @ drop (Suc (nat (indexOf (evts (objs w ! c)) (VEvt s)))) (evtsData ob)\<rparr>)
           (upd s (\<lambda>ob. ob\<lparr>priorityHandlers := remove1 (VRelay j c) (priorityHandlers ob)\<rparr>) w))"
    show ?thesis
    proof (cases "validateKey (objs w ! c) (arg args 0) \<and> validateKey (objs w ! s) k")
      case False
      with inv u show ?thesis by simp
    next
      case True
      define i where "i = nat (indexOf (evts (objs w ! c)) (VEvt s))"
      from val[OF True] u have w': "w' = upd c (\<lambda>ob. ob\<lparr>evts := take i (evts ob) @ drop (Suc i) (evts ob),
                evtsData := take i (evtsData ob) @ drop (Suc i) (evtsData ob)\<rparr>)
           (upd s (\<lambda>ob. ob\<lparr>priorityHandlers := remove1 (VRelay j c) (priorityHandlers ob)\<rparr>) w)"
        by (simp add: i_def)
      have "bindings w' c = take i (bindings w c) @ drop (Suc i) (bindings w c)"
        using assms(2) s zip_splice[OF wf_objD(5)[OF assms(1,2)], of i]
        by (simp add: w' bindings_def upd_nth upd_length)
      moreover have "priorityHandlers (objs w' ! s) = remove1 (VRelay j c) (priorityHandlers (objs w ! s))"
        using s by (simp add: w' upd_nth upd_length)
      ultimately have "i < length (bindings w c)
                  \<and> bindings w c ! i = (unbind_source c args w, Some (k, VRelay j c))
                  \<and> bindings w' c = take i (bindings w c) @ drop (Suc i) (bindings w c)
                  \<and> priorityHandlers (objs w' ! ref (unbind_source c args w))
                      = remove1 (VRelay j c) (priorityHandlers (objs w ! ref (unbind_source c args w)))"
        using i s unfolding i_def by simp
      then show ?thesis by blast
    qed
    qed
  qed
  from wb ab db u wu au du show ?thesis by blast
qed

theorem bindings_stay_aligned_witness:
  "bindings w_pair 0 = [] \<and> bindings (snd (bind 0 [VEvt 1] w_pair)) 0
      = [(VEvt 1, Some (VUndefined, VRelay 0 0))]
   \<and> priorityHandlers (objs (snd (bind 0 [VEvt 1] w_pair)) ! 1) = [VRelay 0 0]
   \<and> aligned (snd (bind 0 [VEvt 1] w_pair)) 0
   \<and> (\<exists>r w'. unbind 0 [VEvt 1] w_bound = Some (r, w') \<and> aligned w' 0 \<and> bindings w' 0 = []
         \<and> priorityHandlers (objs w' ! 1) = [])"
proof -
  have b0: "bindings w_pair 0 = []" by (simp add: bindings_def w_pair_objs)
  have bb: "bindings w_bound 0 = [(VEvt 1, Some (VUndefined, VRelay 0 0))]"
    by (simp add: bindings_def w_bound_objs)
  have c0: "0 < length (objs w_pair)" "compound (objs w_pair ! 0)"
    by (simp_all add: w_pair_objs)
  have c1: "0 < length (objs w_bound)" "compound (objs w_bound ! 0)"
    by (simp_all add: w_bound_objs)
  note T1 = bindings_stay_aligned[OF w_pair_wf c0, of "[VEvt 1]"]
  note T2 = bindings_stay_aligned[OF w_bound_wf c1, of "[VEvt 1]"]
  from T1 have "\<forall>c' < length (objs w_bound). aligned w_bound c'"
    unfolding w_bound_def by blast
  then have a1: "aligned w_bound 0" by (simp add: w_bound_objs)
  from T2 have "\<exists>r w'. unbind 0 [VEvt 1] w_bound = Some (r, w')
      \<and> (\<forall>c' < length (objs w'). aligned w' c')"
    by (elim conjE exE) blast
  then obtain r w' where u: "unbind 0 [VEvt 1] w_bound = Some (r, w')"
    and al: "\<forall>c' < length (objs w'). aligned w' c'"
    by blast
  have w': "w' = upd 0 (\<lambda>ob. ob\<lparr>evts := [], evtsData := []\<rparr>)
                  (upd 1 (\<lambda>ob. ob\<lparr>priorityHandlers := []\<rparr>) w_bound)"
    using u by (simp add: unbind_def Let_def w_bound_unbind_source[unfolded One_nat_def]
        w_bound_objs validateKey_def Evt_validateKey_def CompoundEvt_validateKey_def
        removePriorityHandler_def arg_def splice1_def upd_def)
  have "aligned w' 0" using al by (simp add: w' upd_length w_bound_objs)
  moreover have "bindings w' 0 = []" "priorityHandlers (objs w' ! 1) = []"
    by (simp_all add: w' bindings_def upd_def w_bound_objs)
  ultimately have "\<exists>r w'. unbind 0 [VEvt 1] w_bound = Some (r, w') \<and> aligned w' 0
      \<and> bindings w' 0 = [] \<and> priorityHandlers (objs w' ! 1) = []"
    using u by blast
  moreover have "priorityHandlers (objs w_bound ! 1) = [VRelay 0 0]" by (simp add: w_bound_objs)
  ultimately show ?thesis using b0 bb a1 unfolding w_bound_def[symmetric] by blast
qed

text \<open>In a well-formed store, an event that a compound does not list has no relay
  of that compound among its handlers.\<close>

lemma unlisted_no_relay:
  assumes wf: "wf w" and s: "s < length (objs w)"
    and n: "VEvt s \<notin> set (evts (objs w ! c))"
  shows "c \<notin> relays_of (objs w ! s)"
proof
  assume "c \<in> relays_of (objs w ! s)"
  then obtain j where "VRelay j c \<in> set (priorityHandlers (objs w ! s)) \<union> set (handlers (objs w ! s))"
    unfolding relays_of_def by blast
  then show False
  proof
    assume "VRelay j c \<in> set (priorityHandlers (objs w ! s))"
    with wf_objD(3)[OF wf s] have "recorded (objs w) s (VRelay j c)" by blast
    then obtain k where "(VEvt s, Some (k, VRelay j c))
        \<in> set (zip (evts (objs w ! c)) (evtsData (objs w ! c)))" by auto
    with n show False by (auto dest: set_zip_leftD)
  next
    assume "VRelay j c \<in> set (handlers (objs w ! s))"
    with wf_objD(4)[OF wf s] show False by auto
  qed
qed

lemma distinct_splice_notin:
  assumes "distinct xs" "i < length xs"
  shows "xs ! i \<notin> set (take i xs @ drop (Suc i) xs)"
proof -
  from id_take_nth_drop[OF assms(2)] have "xs = take i xs @ xs ! i # drop (Suc i) xs" .
  with assms(1) have "distinct (take i xs @ xs ! i # drop (Suc i) xs)" by simp
  then show ?thesis by auto
qed

lemma indexOf_append_new: "x \<notin> set xs \<Longrightarrow> indexOf (xs @ [x]) x = int (length xs)"
  by (induction xs) (auto simp: Let_def)

lemma unbind_source_bind: "unbind_source c args w = fst (bind_source c args w)"
  by (simp add: unbind_source_def bind_source_def)

text \<open>\<open>unbind\<close> right after a new binding, with the same arguments, restores every
  object.\<close>

lemma bind_unbind:
  assumes wf: "wf w" and c: "c < length (objs w)" and src: "bind_source c args w = (ev, evKey)"
    and ok: "ev \<noteq> VEvt c" "instanceof_Evt w ev" "validateKey (objs w ! c) (arg args 0)"
      "validateKey (objs w ! ref ev) evKey"
    and nb: "ev \<notin> set (evts (objs w ! c))"
  shows "\<exists>w2. unbind c args (snd (bind c args w)) = Some (VEvt c, w2) \<and> objs w2 = objs w"
proof -
  define w1 where "w1 = snd (bind c args w)"
  define h where "h = VRelay (next_fn w) c"
  from ok(2) obtain s where s: "ev = VEvt s" "s < length (objs w)" by (rule instanceof_EvtE)
  with ok(1) have sc: "s \<noteq> c" by simp
  note D = bind_new_delta[OF wf c src ok nb, folded w1_def h_def]
  have oc: "objs w1 ! c = (objs w ! c)\<lparr>evts := evts (objs w ! c) @ [ev],
              evtsData := evtsData (objs w ! c) @ [Some (evKey, h)]\<rparr>" using D(5) .
  have os: "objs w1 ! s = (objs w ! s)\<lparr>priorityHandlers := priorityHandlers (objs w ! s) @ [h]\<rparr>"
    using D(6) s by simp
  have oo: "\<And>e. e \<noteq> c \<Longrightarrow> e \<noteq> s \<Longrightarrow> objs w1 ! e = objs w ! e" using D(4) s by simp
  have L: "length (objs w1) = length (objs w)" using D(3) .
  note len = wf_objD(5)[OF wf c]
  have usrc: "unbind_source c args w1 = ev"
    using src L by (cases "arg args 0") (auto simp: unbind_source_def bind_source_def locked_def oc
        split: if_splits)
  have inst: "instanceof_Evt w1 ev" using s L by simp
  have b: "ev \<in> set (evts (objs w1 ! c))" by (simp add: oc)
  define i where "i = nat (indexOf (evts (objs w1 ! c)) ev)"
  have i: "i = length (evts (objs w ! c))" using nb by (simp add: i_def oc indexOf_append_new)
  have i1: "i < length (evtsData (objs w1 ! c))" using len by (simp add: i oc)
  have i2: "evtsData (objs w1 ! c) ! i = Some (evKey, h)" using len by (simp add: i oc)
  have v: "validateKey (objs w1 ! c) (arg args 0) \<and> validateKey (objs w1 ! ref ev) evKey"
    using ok(3,4) s by (auto simp: oc os validateKey_def CompoundEvt_validateKey_def
        Evt_validateKey_def split: if_splits)
  define w2 where "w2 = upd c (\<lambda>ob. ob\<lparr>evts := take i (evts ob) @ drop (Suc i) (evts ob),
                         evtsData := take i (evtsData ob) @ drop (Suc i) (evtsData ob)\<rparr>)
          (upd (ref ev) (\<lambda>ob. ob\<lparr>priorityHandlers := remove1 h (priorityHandlers ob)\<rparr>) w1)"
  from unbind_bound[OF usrc inst b i_def i1 i2] v
  have u: "unbind c args w1 = Some (VEvt c, w2)" by (simp add: w2_def)
  have fresh: "h \<notin> set (priorityHandlers (objs w ! s))"
    using wf_fresh[OF wf s(2)] by (simp add: h_def)
  have "objs w2 ! e = objs w ! e" if "e < length (objs w)" for e
  proof -
    consider "e = c" | "e = s" | "e \<noteq> c" "e \<noteq> s" by blast
    then show ?thesis
    proof cases
      case 1
      then show ?thesis using c s sc len L
        by (simp add: w2_def upd_nth upd_length oc i)
    next
      case 2
      then show ?thesis using c s sc L fresh
        by (simp add: w2_def upd_nth upd_length os remove1_append)
    next
      case 3
      then show ?thesis using s by (simp add: w2_def upd_nth upd_length oo)
    qed
  qed
  moreover have "length (objs w2) = length (objs w)" by (simp add: w2_def upd_length L)
  ultimately have "objs w2 = objs w" by (simp add: list_eq_iff_nth_eq)
  with u show ?thesis unfolding w1_def by blast
qed

lemma step_withE:
  assumes "step_with cf x w = Some (r, w')"
  obtains
    (NewEvt) n where "x = NewEvt n" "w' = snd (new_Evt n w)"
  | (NewCompoundEvt) n where "x = NewCompoundEvt n" "w' = snd (new_CompoundEvt n w)"
  | (Lock) t where "x = Lock t" "t < length (objs w)" "w' = snd (lock t w)"
  | (Unlock) t k where "x = Unlock t k" "t < length (objs w)" "w' = snd (unlock t k w)"
  | (AddPriorityHandler) t a where "x = AddPriorityHandler t a" "t < length (objs w)"
      "w' = addPriorityHandler t a w"
  | (AddPriorityHandlers) t a where "x = AddPriorityHandlers t a" "t < length (objs w)"
      "w' = addPriorityHandlers t a w"
  | (RemovePriorityHandler) t a where "x = RemovePriorityHandler t a" "t < length (objs w)"
      "w' = removePriorityHandler t a w"
  | (RemovePriorityHandlers) t a where "x = RemovePriorityHandlers t a" "t < length (objs w)"
      "w' = removePriorityHandlers t a w"
  | (ClearPriorityHandlers) t k where "x = ClearPriorityHandlers t k" "t < length (objs w)"
      "w' = clearPriorityHandlers t k w"
  | (AddHandler) t h where "x = AddHandler t h" "t < length (objs w)" "w' = addHandler t h w"
  | (AddHandlers) t hs where "x = AddHandlers t hs" "t < length (objs w)"
      "w' = addHandlers t hs w"
  | (RemoveHandler) t h where "x = RemoveHandler t h" "t < length (objs w)"
      "w' = removeHandler t h w"
  | (RemoveHandlers) t hs where "x = RemoveHandlers t hs" "t < length (objs w)"
      "w' = removeHandlers t hs w"
  | (ClearHandlers) t where "x = ClearHandlers t" "t < length (objs w)" "w' = clearHandlers t w"
  | (On) t hs where "x = On t hs" "t < length (objs w)" "w' = on t hs w"
  | (Call) t k c d opts y where "x = Call t k c d opts" "t < length (objs w)"
      "cf t k c d opts w = Some (y, w')"
  | (Bind) t a where "x = Bind t a" "t < length (objs w)" "compound (objs w ! t)"
      "w' = snd (bind t a w)" "r = Returned (Ret (fst (bind t a w)))"
  | (Unbind) t a v where "x = Unbind t a" "t < length (objs w)" "compound (objs w ! t)"
      "unbind t a w = Some (v, w')" "r = Returned (Ret v)"
  | (TypeError) "w' = w" "r = Thrown" "(\<exists>t a. x = Bind t a) \<or> (\<exists>t a. x = Unbind t a)"
proof (cases x)
  case (Call t k c d opts)
  with assms obtain y where "t < length (objs w)" "cf t k c d opts w = Some (y, w')"
    by (auto simp: step_with_def split: if_splits option.splits outcome.splits prod.splits)
  with Call show ?thesis by (rule that(16))
next
  case (Bind t a)
  with assms show ?thesis
    using that(17)[of t a] that(19)
    by (auto simp: step_with_def split: if_splits)
next
  case (Unbind t a)
  with assms show ?thesis
    using that(18)[of t a] that(19)
    by (auto simp: step_with_def split: if_splits option.splits)
qed (use assms that in \<open>auto simp: step_with_def split: if_splits\<close>)


section \<open>What the methods other than call change\<close>

lemma evolves_refl: "evolves S w w"
  by (simp add: evolves_def)

lemma evolves_mono: "evolves S w w' \<Longrightarrow> S \<subseteq> S' \<Longrightarrow> evolves S' w w'"
  unfolding evolves_def by blast

lemma evolves_trans:
  assumes a: "evolves S w w1" and b: "evolves S w1 w2"
  shows "evolves S w w2"
proof -
  from a obtain D1 where D1: "detached w1 = detached w @ D1" "\<forall>d \<in> set D1. fst d \<in> S"
    unfolding evolves_def by blast
  from b obtain D2 where D2: "detached w2 = detached w1 @ D2" "\<forall>d \<in> set D2. fst d \<in> S"
    unfolding evolves_def by blast
  have D: "detached w2 = detached w @ (D1 @ D2)" "\<forall>d \<in> set (D1 @ D2). fst d \<in> S"
    using D1 D2 by auto
  have l: "length (objs w) \<le> length (objs w1)" using a by (simp add: evolves_def)
  have "\<forall>e < length (objs w).
            pending (objs w2 ! e) = pending (objs w ! e)
            \<and> compound (objs w2 ! e) = compound (objs w ! e)
            \<and> (e \<notin> S \<longrightarrow> priorityHandlers (objs w2 ! e) = priorityHandlers (objs w ! e)
                          \<and> handlers (objs w2 ! e) = handlers (objs w ! e))"
  proof (intro allI impI)
    fix e assume e: "e < length (objs w)"
    with l have e1: "e < length (objs w1)" by simp
    from a e have 1: "pending (objs w1 ! e) = pending (objs w ! e)"
      "compound (objs w1 ! e) = compound (objs w ! e)"
      "e \<notin> S \<longrightarrow> priorityHandlers (objs w1 ! e) = priorityHandlers (objs w ! e)
                          \<and> handlers (objs w1 ! e) = handlers (objs w ! e)"
      unfolding evolves_def by blast+
    from b e1 have 2: "pending (objs w2 ! e) = pending (objs w1 ! e)"
      "compound (objs w2 ! e) = compound (objs w1 ! e)"
      "e \<notin> S \<longrightarrow> priorityHandlers (objs w2 ! e) = priorityHandlers (objs w1 ! e)
                          \<and> handlers (objs w2 ! e) = handlers (objs w1 ! e)"
      unfolding evolves_def by blast+
    from 1 2 show "pending (objs w2 ! e) = pending (objs w ! e)
            \<and> compound (objs w2 ! e) = compound (objs w ! e)
            \<and> (e \<notin> S \<longrightarrow> priorityHandlers (objs w2 ! e) = priorityHandlers (objs w ! e)
                          \<and> handlers (objs w2 ! e) = handlers (objs w ! e))" by simp
  qed
  moreover have "length (objs w) \<le> length (objs w2) \<and> code w2 = code w \<and> trace w2 = trace w
      \<and> now w2 = now w \<and> reads w2 = reads w
      \<and> next_sym w \<le> next_sym w2 \<and> next_fn w \<le> next_fn w2"
    using a b unfolding evolves_def by auto
  ultimately show ?thesis unfolding evolves_def using D by blast
qed

lemma evolves_upd:
  assumes "\<And>ob. pending (f ob) = pending ob \<and> compound (f ob) = compound ob"
  shows "evolves {t} w (upd t f w)"
proof -
  have o: "pending (objs (upd t f w) ! e) = pending (objs w ! e)
      \<and> compound (objs (upd t f w) ! e) = compound (objs w ! e)
      \<and> (e \<notin> {t} \<longrightarrow> priorityHandlers (objs (upd t f w) ! e) = priorityHandlers (objs w ! e)
            \<and> handlers (objs (upd t f w) ! e) = handlers (objs w ! e))"
    if "e < length (objs w)" for e
    using that assms by (cases "e = t") (simp_all add: upd_def)
  have r: "length (objs w) \<le> length (objs (upd t f w)) \<and> code (upd t f w) = code w
      \<and> trace (upd t f w) = trace w \<and> now (upd t f w) = now w \<and> reads (upd t f w) = reads w
      \<and> next_sym w \<le> next_sym (upd t f w) \<and> next_fn w \<le> next_fn (upd t f w)"
    by (simp add: upd_def)
  have d: "\<exists>D. detached (upd t f w) = detached w @ D \<and> (\<forall>d \<in> set D. fst d \<in> {t})"
    by (rule exI[of _ "[]"]) (simp add: upd_def)
  from o r d show ?thesis unfolding evolves_def by blast
qed

lemma evolves_upd_fields:
  assumes "\<And>ob. pending (f ob) = pending ob \<and> compound (f ob) = compound ob
             \<and> priorityHandlers (f ob) = priorityHandlers ob \<and> handlers (f ob) = handlers ob"
  shows "evolves S w (upd t f w)"
proof -
  have o: "pending (objs (upd t f w) ! e) = pending (objs w ! e)
      \<and> compound (objs (upd t f w) ! e) = compound (objs w ! e)
      \<and> (e \<notin> S \<longrightarrow> priorityHandlers (objs (upd t f w) ! e) = priorityHandlers (objs w ! e)
            \<and> handlers (objs (upd t f w) ! e) = handlers (objs w ! e))"
    if "e < length (objs w)" for e
    using that assms by (cases "e = t") (simp_all add: upd_def)
  have r: "length (objs w) \<le> length (objs (upd t f w)) \<and> code (upd t f w) = code w
      \<and> trace (upd t f w) = trace w \<and> now (upd t f w) = now w \<and> reads (upd t f w) = reads w
      \<and> next_sym w \<le> next_sym (upd t f w) \<and> next_fn w \<le> next_fn (upd t f w)"
    by (simp add: upd_def)
  have d: "\<exists>D. detached (upd t f w) = detached w @ D \<and> (\<forall>d \<in> set D. fst d \<in> S)"
    by (rule exI[of _ "[]"]) (simp add: upd_def)
  from o r d show ?thesis unfolding evolves_def by blast
qed

lemma evolves_detach: "evolves {t} w (w\<lparr>detached := detached w @ [(t, p, xs)]\<rparr>)"
  by (simp add: evolves_def)

lemma evolves_counter:
  "evolves S w (w\<lparr>next_sym := Suc (next_sym w)\<rparr>)" "evolves S w (w\<lparr>next_fn := Suc (next_fn w)\<rparr>)"
  by (simp_all add: evolves_def)

lemma addPriorityHandler_evolves: "evolves {t} w (addPriorityHandler t a w)"
  by (simp add: addPriorityHandler_def Let_def evolves_upd evolves_refl)

lemma addPriorityHandlers_evolves: "evolves {t} w (addPriorityHandlers t a w)"
  by (simp add: addPriorityHandlers_def evolves_upd evolves_refl)

lemma removePriorityHandler_evolves: "evolves {t} w (removePriorityHandler t a w)"
  by (simp add: removePriorityHandler_def Let_def evolves_upd evolves_refl)

lemma removePriorityHandlers_evolves: "evolves {t} w (removePriorityHandlers t a w)"
  by (simp add: removePriorityHandlers_def evolves_upd evolves_refl)

lemma clearPriorityHandlers_evolves: "evolves {t} w (clearPriorityHandlers t k w)"
  unfolding clearPriorityHandlers_def
  using evolves_trans[OF evolves_detach evolves_upd] by (simp add: evolves_refl)

lemma addHandler_evolves: "evolves {t} w (addHandler t h w)"
  by (simp add: addHandler_def evolves_upd evolves_refl)

lemma addHandlers_evolves: "evolves {t} w (addHandlers t hs w)"
proof (induction hs arbitrary: w)
  case Nil
  show ?case by (simp add: evolves_refl)
next
  case (Cons h hs)
  from evolves_trans[OF addHandler_evolves Cons] show ?case by simp
qed

lemma removeHandler_evolves: "evolves {t} w (removeHandler t h w)"
  by (simp add: removeHandler_def evolves_upd evolves_refl)

lemma removeHandlers_evolves: "evolves {t} w (removeHandlers t hs w)"
proof (induction hs arbitrary: w)
  case Nil
  show ?case by (simp add: evolves_refl)
next
  case (Cons h hs)
  from evolves_trans[OF removeHandler_evolves Cons] show ?case by simp
qed

lemma clearHandlers_evolves: "evolves {t} w (clearHandlers t w)"
  unfolding clearHandlers_def
  using evolves_trans[OF evolves_detach evolves_upd] by simp

lemma on_evolves: "evolves {t} w (on t hs w)"
  by (simp add: on_def addHandler_evolves addHandlers_evolves)

lemma lock_evolves: "evolves S w (snd (lock t w))"
proof -
  have "evolves S w (upd t f (w\<lparr>next_sym := Suc (next_sym w)\<rparr>))"
    if "\<And>ob. pending (f ob) = pending ob \<and> compound (f ob) = compound ob
             \<and> priorityHandlers (f ob) = priorityHandlers ob \<and> handlers (f ob) = handlers ob"
    for f
    using evolves_trans[OF evolves_counter(1) evolves_upd_fields[of f]] that by blast
  then show ?thesis
    by (simp add: lock_def Evt_lock_def CompoundEvt_lock_def Let_def evolves_refl)
qed

lemma unlock_evolves: "evolves S w (snd (unlock t k w))"
  by (simp add: unlock_def Evt_unlock_def CompoundEvt_unlock_def evolves_refl evolves_upd_fields)

lemma new_evolves:
  "evolves S w (snd (new_Evt n w))" "evolves S w (snd (new_CompoundEvt n w))"
  by (simp_all add: evolves_def new_Evt_def new_CompoundEvt_def nth_append)

lemma arg_in: "arg a i = VEvt e \<Longrightarrow> VEvt e \<in> set a"
  by (auto simp: arg_def in_set_conv_nth split: if_splits)

lemma bind_source_in:
  "fst (bind_source c a w) = VEvt e \<Longrightarrow> VEvt e \<in> set a"
  by (auto simp: bind_source_def arg_in split: if_splits)

lemma unbind_source_in:
  "unbind_source c a w = VEvt e \<Longrightarrow> VEvt e \<in> set a"
  by (auto simp: unbind_source_def arg_in split: if_splits)

lemma bind_evolves: "evolves {e. VEvt e \<in> set a} w (snd (bind c a w))"
proof -
  obtain ev evKey where src: "bind_source c a w = (ev, evKey)" by (cases "bind_source c a w")
  show ?thesis
  proof (cases "ev = VEvt c \<or> \<not> instanceof_Evt w ev \<or> \<not> validateKey (objs w ! c) (arg a 0)
         \<or> \<not> validateKey (objs w ! ref ev) evKey \<or> ev \<in> set (evts (objs w ! c))")
    case True
    then have "snd (bind c a w) = w" by (auto simp: bind_def src Let_def)
    then show ?thesis by (simp add: evolves_refl)
  next
    case False
    then obtain s where s: "ev = VEvt s" by (cases ev) auto
    with src have sin: "s \<in> {e. VEvt e \<in> set a}" using bind_source_in[of c a w s] by simp
    let ?w0 = "w\<lparr>next_fn := Suc (next_fn w)\<rparr>"
    let ?w1 = "addPriorityHandler s [evKey, VRelay (next_fn w) c] ?w0"
    have w': "snd (bind c a w) =
        upd c (\<lambda>ob. ob\<lparr>evts := assign VUndefined (evts ob) (length (evts (objs ?w1 ! c))) ev,
                         evtsData := assign None (evtsData ob) (length (evts (objs ?w1 ! c)))
                                       (Some (evKey, VRelay (next_fn w) c))\<rparr>) ?w1"
      using False by (simp add: bind_def src Let_def s)
    have 1: "evolves {e. VEvt e \<in> set a} w ?w0" by (rule evolves_counter)
    have 2: "evolves {e. VEvt e \<in> set a} ?w0 ?w1"
      by (rule evolves_mono[OF addPriorityHandler_evolves]) (use sin in simp)
    have 3: "evolves {e. VEvt e \<in> set a} ?w1 (snd (bind c a w))"
      unfolding w' by (rule evolves_upd_fields) simp
    from evolves_trans[OF evolves_trans[OF 1 2] 3] show ?thesis .
  qed
qed

lemma unbind_evolves:
  assumes "unbind c a w = Some (v, w')"
  shows "evolves {e. VEvt e \<in> set a} w w'"
proof (cases "w' = w")
  case True
  then show ?thesis by (simp add: evolves_refl)
next
  case False
  let ?ev = "unbind_source c a w"
  from assms False obtain k h where
    w': "w' = upd c (\<lambda>ob. ob\<lparr>evts := splice1 (evts ob) (indexOf (evts (objs w ! c)) ?ev),
                              evtsData := splice1 (evtsData ob) (indexOf (evts (objs w ! c)) ?ev)\<rparr>)
                (removePriorityHandler (ref ?ev) [k, h] w)"
    and i: "instanceof_Evt w ?ev"
    by (auto simp: unbind_def Let_def split: if_splits option.splits)
  from i obtain s where s: "?ev = VEvt s" by (cases ?ev) auto
  then have sin: "s \<in> {e. VEvt e \<in> set a}" using unbind_source_in[of c a w s] by simp
  have 1: "evolves {e. VEvt e \<in> set a} w (removePriorityHandler (ref ?ev) [k, h] w)"
    by (rule evolves_mono[OF removePriorityHandler_evolves]) (use sin s in simp)
  have 2: "evolves {e. VEvt e \<in> set a} (removePriorityHandler (ref ?ev) [k, h] w) w'"
    unfolding w' by (rule evolves_upd_fields) simp
  from evolves_trans[OF 1 2] show ?thesis .
qed

lemma edits_target:
  "{e. t = e} = {t}"
  by auto

text \<open>A method other than \<^verbatim>\<open>call\<close> leaves the handler lists of the events it does
  not edit.\<close>

lemma step_with_evolves:
  assumes s: "step_with cf x w = Some (r, w')" and x: "\<forall>t k c d opts. x \<noteq> Call t k c d opts"
  shows "evolves {e. edits e x} w w'"
  using s
proof (cases rule: step_withE)
  case (Call t k c d opts y)
  with x show ?thesis by simp
next
  case (Bind t a)
  then show ?thesis by (simp add: bind_evolves)
next
  case (Unbind t a v)
  then show ?thesis by (simp add: unbind_evolves)
qed (simp_all add: edits_target evolves_refl new_evolves lock_evolves unlock_evolves
      addPriorityHandler_evolves addPriorityHandlers_evolves removePriorityHandler_evolves
      removePriorityHandlers_evolves clearPriorityHandlers_evolves addHandler_evolves
      addHandlers_evolves removeHandler_evolves removeHandlers_evolves clearHandlers_evolves
      on_evolves)

section \<open>What every call keeps\<close>

lemma call_Suc:
  "call (Suc n) this key c d opts w =
    (if \<not> this < length (objs w) then None
     else if pending (objs w ! this) \<or> \<not> validateKey (objs w ! this) key
     then Some (Returned None, w)
     else
       (let w1 = upd this (\<lambda>ob. ob\<lparr>pending := True\<rparr>) w;
            instance = getInstance this (default_null c) (default_null d) opts w1;
            w2 = log (Fired this instance) (tick opts w1)
        in case dispatchPriority n (call n) this instance (length (detached w2)) 0 w2 of
             None \<Rightarrow> None
           | Some (Thrown, w3) \<Rightarrow> Some (Thrown, w3)
           | Some (Returned cancelled, w3) \<Rightarrow>
              (case dispatchNormal n (call n) this instance (length (detached w3)) 0
                      cancelled w3 of
                 None \<Rightarrow> None
               | Some (Thrown, w4) \<Rightarrow> Some (Thrown, w4)
               | Some (Returned cancelled', w4) \<Rightarrow>
                   Some (Returned (Some instance),
                         upd this (\<lambda>ob. ob\<lparr>pending := False\<rparr>) w4))))"
  by simp

lemma getInstance_entered:
  "getInstance this c d opts (upd this f w) = getInstance this c d opts w"
  by (simp add: getInstance_def upd_def)

text \<open>The ways a call that passes the guard ends.\<close>

lemma call_passE:
  assumes r: "call (Suc n) this key c d opts w = Some (x, w')"
    and g: "this < length (objs w)" "\<not> pending (objs w ! this)" "validateKey (objs w ! this) key"
  obtains
    (ThrownPriority) "x = Thrown"
      "dispatchPriority n (call n) this (getInstance this (default_null c) (default_null d) opts w)
         (length (detached w)) 0 (entered this c d opts w) = Some (Thrown, w')"
  | (ThrownNormal) b3 w3 where "x = Thrown"
      "dispatchPriority n (call n) this (getInstance this (default_null c) (default_null d) opts w)
         (length (detached w)) 0 (entered this c d opts w) = Some (Returned b3, w3)"
      "dispatchNormal n (call n) this (getInstance this (default_null c) (default_null d) opts w)
         (length (detached w3)) 0 b3 w3 = Some (Thrown, w')"
  | (Returned) b3 w3 b4 w4 where
      "x = Returned (Some (getInstance this (default_null c) (default_null d) opts w))"
      "dispatchPriority n (call n) this (getInstance this (default_null c) (default_null d) opts w)
         (length (detached w)) 0 (entered this c d opts w) = Some (Returned b3, w3)"
      "dispatchNormal n (call n) this (getInstance this (default_null c) (default_null d) opts w)
         (length (detached w3)) 0 b3 w3 = Some (Returned b4, w4)"
      "w' = upd this (\<lambda>ob. ob\<lparr>pending := False\<rparr>) w4"
proof -
  let ?i = "getInstance this (default_null c) (default_null d) opts w"
  let ?w2 = "entered this c d opts w"
  have d2: "length (detached ?w2) = length (detached w)"
    by (simp add: entered_def log_def tick_def upd_def)
  have e: "log (Fired this ?i) (tick opts (upd this (\<lambda>ob. ob\<lparr>pending := True\<rparr>) w)) = ?w2"
    by (simp add: entered_def)
  from r g have c: "(case dispatchPriority n (call n) this ?i (length (detached w)) 0 ?w2 of
             None \<Rightarrow> None
           | Some (Thrown, w3) \<Rightarrow> Some (Thrown, w3)
           | Some (Returned cancelled, w3) \<Rightarrow>
              (case dispatchNormal n (call n) this ?i (length (detached w3)) 0 cancelled w3 of
                 None \<Rightarrow> None
               | Some (Thrown, w4) \<Rightarrow> Some (Thrown, w4)
               | Some (Returned cancelled', w4) \<Rightarrow>
                   Some (Returned (Some ?i), upd this (\<lambda>ob. ob\<lparr>pending := False\<rparr>) w4)))
         = Some (x, w')"
    unfolding call_Suc Let_def getInstance_entered e d2 by simp
  then obtain y3 w3 where
    p: "dispatchPriority n (call n) this ?i (length (detached w)) 0 ?w2 = Some (y3, w3)"
    by (cases "dispatchPriority n (call n) this ?i (length (detached w)) 0 ?w2") auto
  show thesis
  proof (cases y3)
    case Thrown
    with c p have "x = Thrown" "w' = w3" by auto
    with p Thrown show ?thesis by (intro ThrownPriority) auto
  next
    case (Returned b3)
    with c p obtain y4 w4 where
      q: "dispatchNormal n (call n) this ?i (length (detached w3)) 0 b3 w3 = Some (y4, w4)"
      by (cases "dispatchNormal n (call n) this ?i (length (detached w3)) 0 b3 w3") auto
    show ?thesis
    proof (cases y4)
      case Thrown
      with c p q Returned have "x = Thrown" "w' = w4" by auto
      with p q Returned Thrown show ?thesis by (intro ThrownNormal[of b3 w3]) auto
    next
      case (Returned b4)
      with c p q \<open>y3 = Returned b3\<close> have "x = outcome.Returned (Some ?i)"
        "w' = upd this (\<lambda>ob. ob\<lparr>pending := False\<rparr>) w4" by auto
      with p q \<open>y3 = Returned b3\<close> Returned show ?thesis
        by (intro that(3)[of b3 w3 b4 w4]) auto
    qed
  qed
qed

lemma call_refused:
  assumes "call n this key c d opts w = Some (x, w')"
    and "pending (objs w ! this) \<or> \<not> validateKey (objs w ! this) key"
  shows "x = Returned None \<and> w' = w"
proof (cases n)
  case 0
  with assms(1) show ?thesis by simp
next
  case (Suc m)
  with assms show ?thesis unfolding Suc call_Suc by (auto split: if_splits)
qed

lemma call_lt: "call n this key c d opts w = Some r \<Longrightarrow> this < length (objs w)"
  by (cases n) (auto split: if_splits)

lemma keeps_refl: "keeps w w"
  by (simp add: keeps_def)

lemma keeps_trans:
  assumes "keeps w w1" "keeps w1 w2"
  shows "keeps w w2"
proof -
  have "take (length (detached w)) (detached w2) = detached w"
  proof -
    from assms have 1: "take (length (detached w)) (detached w1) = detached w"
      and 2: "take (length (detached w1)) (detached w2) = detached w1"
      by (simp_all add: keeps_def)
    from 1 have "length (take (length (detached w)) (detached w1)) = length (detached w)"
      by simp
    then have "length (detached w) \<le> length (detached w1)" by simp
    then have "take (length (detached w)) (detached w2)
        = take (length (detached w)) (take (length (detached w1)) (detached w2))"
      by (simp add: min_def)
    with 1 2 show ?thesis by simp
  qed
  moreover have "length (objs w) \<le> length (objs w2)" "code w2 = code w"
    "\<forall>e < length (objs w). pending (objs w ! e) \<longrightarrow> pending (objs w2 ! e)"
    using assms unfolding keeps_def by auto
  ultimately show ?thesis by (simp add: keeps_def)
qed

lemma evolves_keeps: "evolves S w w' \<Longrightarrow> keeps w w'"
  unfolding evolves_def keeps_def by auto

lemma keeps_log: "keeps w (log x w)"
  by (simp add: keeps_def log_def)

lemma keeps_entered: "this < length (objs w) \<Longrightarrow> keeps w (entered this c d opts w)"
  by (auto simp: keeps_def entered_def log_def tick_def upd_def nth_list_update)

lemma step_with_keeps:
  assumes "cf_keeps cf" and s: "step_with cf x w = Some (r, w')"
  shows "keeps w w'"
proof (cases "\<exists>t k c d opts. x = Call t k c d opts")
  case False
  with step_with_evolves[OF s] show ?thesis by (auto intro: evolves_keeps)
next
  case True
  with s assms(1) show ?thesis
    by (cases rule: step_withE) (auto simp: cf_keeps_def)
qed

lemma runBody_keeps:
  "cf_keeps cf \<Longrightarrow> runBody cf as b w = Some (r, w') \<Longrightarrow> keeps w w'"
proof (induction cf as b w rule: runBody.induct)
  case (4 cf x as cancelled w)
  from "4.prems"(2) obtain y w1 where s: "step_with cf x w = Some (y, w1)"
    by (auto split: option.splits)
  note k1 = step_with_keeps[OF "4.prems"(1) s]
  show ?case
  proof (cases y)
    case Thrown
    with "4.prems"(2) s k1 show ?thesis by simp
  next
    case (Returned v)
    with "4.prems"(2) s have "runBody cf as cancelled w1 = Some (r, w')" by simp
    from "4.IH"[OF s refl Returned "4.prems"(1) this] k1 show ?thesis
      using keeps_trans by blast
  qed
qed (auto simp: keeps_refl)

lemma invoke_keeps:
  assumes "cf_keeps cf" and r: "invoke cf h e this b w = Some (y, w')"
  shows "keeps w w'"
proof (cases h)
  case (VFunction i)
  with r have "runBody cf (code w i) b (log (Invoked h e (VEvt this)) w) = Some (y, w')"
    by (simp add: log_def)
  from runBody_keeps[OF assms(1) this] keeps_log show ?thesis using keeps_trans by blast
next
  case (VRelay i c)
  let ?w = "log (Invoked h e (VEvt this)) w"
  from r VRelay obtain x where
    "cf c (CompoundEvt_key (objs ?w ! c)) (caller e) (data e)
        \<lparr>overrideEvt = evt e, overrideTime = time e\<rparr> ?w = Some (x, w')"
    by (auto simp: CompoundEvt_private_call_def split: if_splits option.splits outcome.splits)
  with assms(1) have "keeps ?w w'" unfolding cf_keeps_def by blast
  with keeps_log show ?thesis using keeps_trans by blast
qed (use r in \<open>auto simp: keeps_refl\<close>)

lemma dispatchPriority_keeps:
  "cf_keeps cf \<Longrightarrow> dispatchPriority m cf this e g k w = Some (y, w') \<Longrightarrow> keeps w w'"
proof (induction m arbitrary: k w)
  case 0
  then show ?case by simp
next
  case (Suc m)
  show ?case
  proof (cases "k < length (current True this g w)")
    case False
    with Suc.prems(2) show ?thesis by (simp add: keeps_refl)
  next
    case True
    with Suc.prems(2) obtain y1 w1 where
      i: "invoke cf (current True this g w ! k) e this False w = Some (y1, w1)"
      by (auto split: option.splits)
    note k1 = invoke_keeps[OF Suc.prems(1) i]
    show ?thesis
    proof (cases y1)
      case Thrown
      with Suc.prems(2) True i k1 show ?thesis by simp
    next
      case (Returned b)
      show ?thesis
      proof (cases b)
        case True
        with Suc.prems(2) \<open>k < length (current True this g w)\<close> i Returned k1 show ?thesis by simp
      next
        case False
        with Suc.prems(2) \<open>k < length (current True this g w)\<close> i Returned
        have "dispatchPriority m cf this e g (Suc k) w1 = Some (y, w')" by simp
        from Suc.IH[OF Suc.prems(1) this] k1 show ?thesis using keeps_trans by blast
      qed
    qed
  qed
qed

lemma dispatchNormal_keeps:
  "cf_keeps cf \<Longrightarrow> dispatchNormal m cf this e g k b w = Some (y, w') \<Longrightarrow> keeps w w'"
proof (induction m arbitrary: k b w)
  case 0
  then show ?case by simp
next
  case (Suc m)
  show ?case
  proof (cases "k < length (current False this g w) \<and> \<not> b")
    case False
    with Suc.prems(2) show ?thesis by (auto simp: keeps_refl split: if_splits)
  next
    case True
    with Suc.prems(2) obtain y1 w1 where
      i: "invoke cf (current False this g w ! k) e this False w = Some (y1, w1)"
      by (auto split: option.splits)
    note k1 = invoke_keeps[OF Suc.prems(1) i]
    show ?thesis
    proof (cases y1)
      case Thrown
      with Suc.prems(2) True i k1 show ?thesis by simp
    next
      case (Returned b1)
      with Suc.prems(2) True i
      have "dispatchNormal m cf this e g (Suc k) b1 w1 = Some (y, w')" by simp
      from Suc.IH[OF Suc.prems(1) this] k1 show ?thesis using keeps_trans by blast
    qed
  qed
qed

lemma keeps_pending:
  "keeps w w' \<Longrightarrow> e < length (objs w) \<Longrightarrow> pending (objs w ! e) \<Longrightarrow>
   e < length (objs w') \<and> pending (objs w' ! e)"
  unfolding keeps_def by auto

lemma keeps_exit:
  assumes k: "keeps w w4" and np: "\<not> pending (objs w ! this)"
  shows "keeps w (upd this (\<lambda>ob. ob\<lparr>pending := False\<rparr>) w4)"
proof -
  have "pending (objs (upd this (\<lambda>ob. ob\<lparr>pending := False\<rparr>) w4) ! e)"
    if "e < length (objs w)" "pending (objs w ! e)" for e
  proof -
    from that np have "e \<noteq> this" by auto
    with keeps_pending[OF k that] show ?thesis by (simp add: upd_def)
  qed
  with k show ?thesis by (simp add: keeps_def upd_def)
qed

lemma call_keeps: "cf_keeps (call n)"
proof (induction n)
  case 0
  show ?case by (simp add: cf_keeps_def)
next
  case (Suc n)
  show ?case unfolding cf_keeps_def
  proof (intro allI impI)
    fix this key c d opts w x w'
    assume a: "call (Suc n) this key c d opts w = Some (x, w')"
    show "keeps w w'"
    proof (cases "pending (objs w ! this) \<or> \<not> validateKey (objs w ! this) key")
      case True
      with call_refused[OF a] show ?thesis by (simp add: keeps_refl)
    next
      case False
      then have g: "this < length (objs w)" "\<not> pending (objs w ! this)"
        "validateKey (objs w ! this) key" using call_lt[OF a] by auto
      note ke = keeps_entered[OF g(1), of c d opts]
      from a g show ?thesis
      proof (cases rule: call_passE)
        case ThrownPriority
        from dispatchPriority_keeps[OF Suc ThrownPriority(2)] ke show ?thesis
          using keeps_trans by blast
      next
        case (ThrownNormal b3 w3)
        from dispatchPriority_keeps[OF Suc ThrownNormal(2)]
          dispatchNormal_keeps[OF Suc ThrownNormal(3)] ke
        show ?thesis using keeps_trans by blast
      next
        case (Returned b3 w3 b4 w4)
        from dispatchPriority_keeps[OF Suc Returned(2)]
          dispatchNormal_keeps[OF Suc Returned(3)] ke
        have "keeps w w4" using keeps_trans by blast
        from keeps_exit[OF this g(2)] Returned(4) show ?thesis by simp
      qed
    qed
  qed
qed

lemma call_keepsD: "call n this key c d opts w = Some (x, w') \<Longrightarrow> keeps w w'"
  using call_keeps[of n] unfolding cf_keeps_def by blast

section \<open>Properties that no call destroys\<close>

lemma closedI:
  assumes "\<And>w. P w \<Longrightarrow> scripted A (code w)"
    and "\<And>cf x w r w'. A x \<Longrightarrow> \<forall>t k c d opts. x \<noteq> Call t k c d opts \<Longrightarrow> P w \<Longrightarrow>
            step_with cf x w = Some (r, w') \<Longrightarrow> P w'"
    and "\<And>w D c d opts. P w \<Longrightarrow> D < length (objs w) \<Longrightarrow> \<not> pending (objs w ! D) \<Longrightarrow>
            G D \<and> P (entered D c d opts w)"
    and "\<And>w D h i. P w \<Longrightarrow> G D \<Longrightarrow> D < length (objs w) \<Longrightarrow> pending (objs w ! D) \<Longrightarrow>
            P (log (Invoked h i (VEvt D)) w)"
    and "\<And>w D. P w \<Longrightarrow> G D \<Longrightarrow> D < length (objs w) \<Longrightarrow> pending (objs w ! D) \<Longrightarrow>
            P (upd D (\<lambda>ob. ob\<lparr>pending := False\<rparr>) w)"
  shows "closed P A G"
  unfolding closed_def using assms by blast

lemma closedD:
  assumes "closed P A G"
  shows "\<And>w. P w \<Longrightarrow> scripted A (code w)"
    and "\<And>cf x w r w'. A x \<Longrightarrow> \<forall>t k c d opts. x \<noteq> Call t k c d opts \<Longrightarrow> P w \<Longrightarrow>
            step_with cf x w = Some (r, w') \<Longrightarrow> P w'"
    and "\<And>w D c d opts. P w \<Longrightarrow> D < length (objs w) \<Longrightarrow> \<not> pending (objs w ! D) \<Longrightarrow>
            G D \<and> P (entered D c d opts w)"
    and "\<And>w D h i. P w \<Longrightarrow> G D \<Longrightarrow> D < length (objs w) \<Longrightarrow> pending (objs w ! D) \<Longrightarrow>
            P (log (Invoked h i (VEvt D)) w)"
    and "\<And>w D. P w \<Longrightarrow> G D \<Longrightarrow> D < length (objs w) \<Longrightarrow> pending (objs w ! D) \<Longrightarrow>
            P (upd D (\<lambda>ob. ob\<lparr>pending := False\<rparr>) w)"
  using assms unfolding closed_def by blast+

lemma step_with_inv:
  assumes cl: "closed P A G" and cf: "cf_inv P cf"
    and a: "A x" and p: "P w" and s: "step_with cf x w = Some (r, w')"
  shows "P w'"
proof (cases "\<exists>t k c d opts. x = Call t k c d opts")
  case False
  with closedD(2)[OF cl a _ p s] show ?thesis by blast
next
  case True
  with s cf p show ?thesis
    by (cases rule: step_withE) (auto simp: cf_inv_def)
qed

lemma runBody_inv:
  assumes cl: "closed P A G"
  shows "cf_inv P cf \<Longrightarrow> \<forall>x. Do x \<in> set as \<longrightarrow> A x \<Longrightarrow> P w \<Longrightarrow>
         runBody cf as b w = Some (r, w') \<Longrightarrow> P w'"
proof (induction cf as b w rule: runBody.induct)
  case (4 cf x as cancelled w)
  from "4.prems"(4) obtain y w1 where s: "step_with cf x w = Some (y, w1)"
    by (auto split: option.splits)
  have ax: "A x" using "4.prems"(2) by simp
  have p1: "P w1" by (rule step_with_inv[OF cl "4.prems"(1) ax "4.prems"(3) s])
  show ?case
  proof (cases y)
    case Thrown
    with "4.prems"(4) s p1 show ?thesis by simp
  next
    case (Returned v)
    with "4.prems"(4) s have "runBody cf as cancelled w1 = Some (r, w')" by simp
    from "4.IH"[OF s refl Returned "4.prems"(1) _ p1 this] "4.prems"(2) show ?thesis by simp
  qed
qed auto

lemma invoke_inv:
  assumes cl: "closed P A G" and cf: "cf_inv P cf"
    and p: "P w" and g: "G this" "this < length (objs w)" "pending (objs w ! this)"
    and r: "invoke cf h e this b w = Some (y, w')"
  shows "P w'"
proof (cases h)
  case (VFunction i)
  let ?w = "log (Invoked h e (VEvt this)) w"
  have pl: "P ?w" by (rule closedD(4)[OF cl p g])
  from r VFunction have b: "runBody cf (code w i) b ?w = Some (y, w')" by (simp add: log_def)
  have "\<forall>x. Do x \<in> set (code w i) \<longrightarrow> A x"
    using closedD(1)[OF cl p] unfolding scripted_def by blast
  from runBody_inv[OF cl cf this pl b] show ?thesis .
next
  case (VRelay i c)
  let ?w = "log (Invoked h e (VEvt this)) w"
  have pl: "P ?w" by (rule closedD(4)[OF cl p g])
  from r VRelay obtain x where
    "cf c (CompoundEvt_key (objs ?w ! c)) (caller e) (data e)
        \<lparr>overrideEvt = evt e, overrideTime = time e\<rparr> ?w = Some (x, w')"
    by (auto simp: CompoundEvt_private_call_def split: if_splits option.splits outcome.splits)
  with cf pl show ?thesis unfolding cf_inv_def by blast
qed (use r p in auto)

lemma dispatchPriority_inv:
  assumes cl: "closed P A G" and cf: "cf_inv P cf" "cf_keeps cf" and g: "G this"
  shows "P w \<Longrightarrow> this < length (objs w) \<Longrightarrow> pending (objs w ! this) \<Longrightarrow>
     dispatchPriority m cf this e gen k w = Some (y, w') \<Longrightarrow> P w'"
proof (induction m arbitrary: k w)
  case 0
  then show ?case by simp
next
  case (Suc m)
  show ?case
  proof (cases "k < length (current True this gen w)")
    case False
    with Suc.prems show ?thesis by simp
  next
    case True
    with Suc.prems(4) obtain y1 w1 where
      i: "invoke cf (current True this gen w ! k) e this False w = Some (y1, w1)"
      by (auto split: option.splits)
    have p1: "P w1" by (rule invoke_inv[OF cl cf(1) Suc.prems(1) g Suc.prems(2,3) i])
    note k1 = keeps_pending[OF invoke_keeps[OF cf(2) i] Suc.prems(2,3)]
    show ?thesis
    proof (cases y1)
      case Thrown
      with Suc.prems(4) True i p1 show ?thesis by simp
    next
      case (Returned b)
      show ?thesis
      proof (cases b)
        case True
        with Suc.prems(4) \<open>k < length (current True this gen w)\<close> i Returned p1
        show ?thesis by simp
      next
        case False
        with Suc.prems(4) \<open>k < length (current True this gen w)\<close> i Returned
        have "dispatchPriority m cf this e gen (Suc k) w1 = Some (y, w')" by simp
        from Suc.IH[OF p1 _ _ this] k1 show ?thesis by simp
      qed
    qed
  qed
qed

lemma dispatchNormal_inv:
  assumes cl: "closed P A G" and cf: "cf_inv P cf" "cf_keeps cf" and g: "G this"
  shows "P w \<Longrightarrow> this < length (objs w) \<Longrightarrow> pending (objs w ! this) \<Longrightarrow>
     dispatchNormal m cf this e gen k b w = Some (y, w') \<Longrightarrow> P w'"
proof (induction m arbitrary: k b w)
  case 0
  then show ?case by simp
next
  case (Suc m)
  show ?case
  proof (cases "k < length (current False this gen w) \<and> \<not> b")
    case False
    with Suc.prems show ?thesis by (auto split: if_splits)
  next
    case True
    with Suc.prems(4) obtain y1 w1 where
      i: "invoke cf (current False this gen w ! k) e this False w = Some (y1, w1)"
      by (auto split: option.splits)
    have p1: "P w1" by (rule invoke_inv[OF cl cf(1) Suc.prems(1) g Suc.prems(2,3) i])
    note k1 = keeps_pending[OF invoke_keeps[OF cf(2) i] Suc.prems(2,3)]
    show ?thesis
    proof (cases y1)
      case Thrown
      with Suc.prems(4) True i p1 show ?thesis by simp
    next
      case (Returned b1)
      with Suc.prems(4) True i
      have "dispatchNormal m cf this e gen (Suc k) b1 w1 = Some (y, w')" by simp
      from Suc.IH[OF p1 _ _ this] k1 show ?thesis by simp
    qed
  qed
qed

lemma entered_pending:
  "this < length (objs w) \<Longrightarrow>
   this < length (objs (entered this c d opts w)) \<and> pending (objs (entered this c d opts w) ! this)"
  by (simp add: entered_def log_def tick_def upd_def)

text \<open>No call destroys a closed property, whether it returns or throws.\<close>

lemma call_inv:
  assumes cl: "closed P A G"
  shows "cf_inv P (call n)"
proof (induction n)
  case 0
  show ?case by (simp add: cf_inv_def)
next
  case (Suc n)
  show ?case unfolding cf_inv_def
  proof (intro allI impI)
    fix this key c d opts w x w'
    assume p: "P w" and a: "call (Suc n) this key c d opts w = Some (x, w')"
    show "P w'"
    proof (cases "pending (objs w ! this) \<or> \<not> validateKey (objs w ! this) key")
      case True
      with call_refused[OF a] p show ?thesis by simp
    next
      case False
      then have g: "this < length (objs w)" "\<not> pending (objs w ! this)"
        "validateKey (objs w ! this) key" using call_lt[OF a] by auto
      from closedD(3)[OF cl p g(1,2), of c d opts]
      have G: "G this" and p2: "P (entered this c d opts w)" by auto
      note e2 = entered_pending[OF g(1), of c d opts]
      from a g show ?thesis
      proof (cases rule: call_passE)
        case ThrownPriority
        from dispatchPriority_inv[OF cl Suc call_keeps G p2 _ _ ThrownPriority(2)] e2
        show ?thesis by simp
      next
        case (ThrownNormal b3 w3)
        from dispatchPriority_inv[OF cl Suc call_keeps G p2 _ _ ThrownNormal(2)] e2
        have p3: "P w3" by simp
        note e3 = keeps_pending[OF dispatchPriority_keeps[OF call_keeps ThrownNormal(2)], of this]
        from dispatchNormal_inv[OF cl Suc call_keeps G p3 _ _ ThrownNormal(3)] e2 e3
        show ?thesis by simp
      next
        case (Returned b3 w3 b4 w4)
        from dispatchPriority_inv[OF cl Suc call_keeps G p2 _ _ Returned(2)] e2
        have p3: "P w3" by simp
        from keeps_pending[OF dispatchPriority_keeps[OF call_keeps Returned(2)], of this] e2
        have e3: "this < length (objs w3)" "pending (objs w3 ! this)" by simp_all
        from dispatchNormal_inv[OF cl Suc call_keeps G p3 e3 Returned(3)]
        have p4: "P w4" .
        from keeps_pending[OF dispatchNormal_keeps[OF call_keeps Returned(3)] e3]
        have e4: "this < length (objs w4)" "pending (objs w4 ! this)" by simp_all
        from closedD(5)[OF cl p4 G e4] Returned(4) show ?thesis by simp
      qed
    qed
  qed
qed

lemma call_invD:
  "closed P A G \<Longrightarrow> P w \<Longrightarrow> call n this key c d opts w = Some (x, w') \<Longrightarrow> P w'"
  using call_inv[of P A G n] unfolding cf_inv_def by blast

lemma step_inv:
  assumes cl: "closed P A G" and a: "A x" and p: "P w" and s: "step n x w = Some (r, w')"
  shows "P w'"
  using step_with_inv[OF cl call_inv[OF cl] a p] s unfolding step_def by blast

section \<open>Well-formed stores and duplicate-free lists under calls\<close>



lemma entered_rest:
  "code (entered this c d opts w) = code w" "detached (entered this c d opts w) = detached w"
  "next_sym (entered this c d opts w) = next_sym w" "next_fn (entered this c d opts w) = next_fn w"
  "now (entered this c d opts w) = now w"
  by (simp_all add: entered_def log_def tick_def upd_def)

lemma entered_upd:
  "objs (entered this c d opts w) = objs (upd this (\<lambda>ob. ob\<lparr>pending := True\<rparr>) w)"
  by (simp add: entered_def log_def tick_def upd_def)

lemma wf_entered: assumes "wf w" shows "wf (entered this c d opts w)"
  by (rule wf_same_lists[OF assms])
     (simp_all add: entered_upd entered_rest upd_nth upd_length)

lemma wf_log: assumes "wf w" shows "wf (log x w)"
  by (rule wf_same_lists[OF assms]) (simp_all add: log_def)

lemma wf_exit: assumes "wf w" shows "wf (upd this (\<lambda>ob. ob\<lparr>pending := False\<rparr>) w)"
  by (rule wf_same_lists[OF assms]) (simp_all add: upd_nth upd_length upd_next_fn)

lemma step_with_code:
  assumes "step_with cf x w = Some (r, w')" "\<forall>t k c d opts. x \<noteq> Call t k c d opts"
  shows "code w' = code w"
  using step_with_evolves[OF assms] by (simp add: evolves_def)

text \<open>Every method but \<^verbatim>\<open>call\<close> keeps the store well-formed.\<close>

lemma step_with_wf:
  assumes wf: "wf w" and x: "user_op x" and n: "\<forall>t k c d opts. x \<noteq> Call t k c d opts"
    and s: "step_with cf x w = Some (r, w')"
  shows "wf w'"
  using s
proof (cases rule: step_withE)
  case (Call t k c d opts y)
  with n show ?thesis by simp
next
  case (Unbind t a v)
  with wf show ?thesis using unbind_wf by blast
qed (use wf x in \<open>simp_all add: new_Evt_wf new_CompoundEvt_wf lock_wf unlock_wf
      addPriorityHandler_wf addPriorityHandlers_wf removePriorityHandler_wf
      removePriorityHandlers_wf clearPriorityHandlers_wf addHandler_wf addHandlers_wf
      removeHandler_wf removeHandlers_wf clearHandlers_wf on_wf bind_wf\<close>)

lemma wf_closed:
  "closed (\<lambda>w. wf w \<and> scripted user_op (code w)) user_op (\<lambda>D. True)"
proof (rule closedI)
  fix cf x w r w'
  assume "user_op x" "\<forall>t k c d opts. x \<noteq> Call t k c d opts"
    "wf w \<and> scripted user_op (code w)" "step_with cf x w = Some (r, w')"
  then show "wf w' \<and> scripted user_op (code w')"
    using step_with_wf[of w x cf r w'] step_with_code[of cf x w r w'] by simp
qed (simp_all add: wf_entered wf_log wf_exit entered_rest, simp_all add: log_def upd_def)

text \<open>Every operation of a caller keeps the store well-formed, whatever the
  functions it invokes do, when these pass on no relay.\<close>

lemma step_wf:
  assumes "wf w" "scripted user_op (code w)" "user_op x" "step n x w = Some (r, w')"
  shows "wf w' \<and> scripted user_op (code w')"
  using step_inv[OF wf_closed assms(3) _ assms(4)] assms(1,2) by simp

lemma run_wf:
  "wf w \<Longrightarrow> scripted user_op (code w) \<Longrightarrow> list_all user_op xs \<Longrightarrow> run n xs w = Some w' \<Longrightarrow>
   wf w'"
proof (induction xs arbitrary: w)
  case Nil
  then show ?case by simp
next
  case (Cons x xs)
  from Cons.prems(4) obtain r w1 where s: "step n x w = Some (r, w1)"
    and r: "run n xs w1 = Some w'"
    by (auto split: option.splits)
  from step_wf[OF Cons.prems(1,2) _ s] Cons.prems(3)
  have "wf w1" "scripted user_op (code w1)" by simp_all
  from Cons.IH[OF this _ r] Cons.prems(3) show ?case by simp
qed

lemma call_wf:
  assumes "wf w" "scripted user_op (code w)" "call n this key c d opts w = Some (x, w')"
  shows "wf w'"
  using call_invD[OF wf_closed _ assms(3)] assms(1,2) by simp

lemma no_dups_same:
  assumes "no_dups w"
    and "\<forall>ob' \<in> set (objs w'). \<exists>ob \<in> set (objs w).
           priorityHandlers ob' = priorityHandlers ob \<and> handlers ob' = handlers ob"
  shows "no_dups w'"
  using assms unfolding no_dups_def by metis






section \<open>Tokens under the operations\<close>


















section \<open>The invocations of a call\<close>

lemma upto_cancel_append:
  "upto_cancel C (xs @ ys) =
     (if \<exists>h \<in> set xs. cancels C h then upto_cancel C xs else xs @ upto_cancel C ys)"
  by (induction xs) auto


lemma upto_cancel_subset: "set (upto_cancel C hs) \<subseteq> set hs"
  by (induction hs) auto








section \<open>A call returns\<close>













section \<open>The order of invocations\<close>









section \<open>The entry guard\<close>







section \<open>Handlers are listed once\<close>















end
